theory Spec2Isabelle
  imports Complex_Main
begin

section \<open>Python values: errors, the random generator, text\<close>

text \<open>
  Exceptions of the Python source are values: a function that can raise returns
  \<open>error + 'a\<close>, with \<open>Inl\<close> for the exception.
\<close>

datatype error =
  ValueError | IndexError | OverflowError | ZeroDivisionError | ConfigurationError | InvariantViolation

text \<open>
  The module \<open>random\<close> keeps one generator state. It is passed explicitly: the state is
  the list of raw draws still to come (an exhausted list draws 0), and \<open>_randbelow n\<close>
  reduces the next raw draw into \<open>range(n)\<close>. Every theorem below quantifies over the
  generator state, that is over every outcome of the random calls.
\<close>

type_synonym rng = "nat list"

definition randbelow :: "nat \<Rightarrow> rng \<Rightarrow> nat \<times> rng" where
  "randbelow n g = (case g of [] \<Rightarrow> (0, []) | r # rs \<Rightarrow> (r mod n, rs))"

text \<open>\<open>random.choice(seq)\<close> is \<open>seq[_randbelow(len(seq))]\<close>; the source calls it on the
  two-element list \<open>[True, False]\<close> only.\<close>

definition random_choice :: "'a list \<Rightarrow> rng \<Rightarrow> 'a \<times> rng" where
  "random_choice xs g = (case randbelow (length xs) g of (j, g') \<Rightarrow> (xs ! j, g'))"

text \<open>
  \<open>random.sample(population, k)\<close> raises \<open>ValueError\<close> when \<open>k\<close> exceeds the population and
  otherwise selects without replacement: it draws a position of the pool, takes the item
  there and moves the last item of the pool into the vacancy.
\<close>

fun sample_pool :: "'a list \<Rightarrow> nat \<Rightarrow> rng \<Rightarrow> 'a list \<times> rng" where
  "sample_pool pool 0 g = ([], g)"
| "sample_pool pool (Suc k) g =
     (case randbelow (length pool) g of (j, g') \<Rightarrow>
        (case sample_pool (butlast (pool[j := last pool])) k g' of (rest, g'') \<Rightarrow>
           (pool ! j # rest, g'')))"

definition random_sample :: "'a list \<Rightarrow> nat \<Rightarrow> rng \<Rightarrow> error + 'a list \<times> rng" where
  "random_sample population k g =
     (if length population < k then Inl ValueError else Inr (sample_pool population k g))"

text \<open>\<open>range(n)\<close> for a Python integer: empty when \<open>n \<le> 0\<close>.\<close>

definition py_range :: "int \<Rightarrow> int list" where
  "py_range n = map int [0..<nat n]"

text \<open>\<open>xs[i]\<close>: positions \<open>0 \<dots> len - 1\<close> read the list, positions \<open>-len \<dots> -1\<close> read it
  from its end, and any other position raises \<open>IndexError\<close>.\<close>

definition py_index :: "'a list \<Rightarrow> int \<Rightarrow> error + 'a" where
  "py_index xs i =
     (if 0 \<le> i \<and> i < int (length xs) then Inr (xs ! nat i)
      else if - int (length xs) \<le> i \<and> i < 0 then Inr (xs ! nat (int (length xs) + i))
      else Inl IndexError)"

text \<open>\<open>str\<close> of an integer, as f-strings insert it.\<close>

definition digit_char :: "nat \<Rightarrow> char" where
  "digit_char d = ''0123456789'' ! d"

fun str_nat :: "nat \<Rightarrow> string" where
  "str_nat n = (if n < 10 then [digit_char n] else str_nat (n div 10) @ [digit_char (n mod 10)])"

declare str_nat.simps [simp del]

definition str_int :: "int \<Rightarrow> string" where
  "str_int i = (if i < 0 then ''-'' @ str_nat (nat (- i)) else str_nat (nat i))"

fun join :: "string \<Rightarrow> string list \<Rightarrow> string" where
  "join sep [] = []"
| "join sep [x] = x"
| "join sep (x # y # ys) = x @ sep @ join sep (y # ys)"

text \<open>The lines of a text (\<open>str.splitlines\<close> for newline-separated text).\<close>

fun split_lines_acc :: "string \<Rightarrow> string \<Rightarrow> string list" where
  "split_lines_acc cur [] = (if cur = [] then [] else [cur])"
| "split_lines_acc cur (c # cs) =
     (if c = CHR 0x0A then cur # split_lines_acc [] cs else split_lines_acc (cur @ [c]) cs)"

definition split_lines :: "string \<Rightarrow> string list" where
  "split_lines s = split_lines_acc [] s"

section \<open>Python floats\<close>

text \<open>
  A Python float is an IEEE 754 binary64 number. A finite float is modelled by the real
  number it denotes, and every arithmetic operation is the exact operation followed by
  rounding to the nearest float, ties to the even significand: \<open>round_double\<close>. The
  significand has 53 bits; below \<open>2 powr -1022\<close> the spacing stays at \<open>2 powr -1074\<close>
  (subnormal numbers). The square \<open>x ** 2\<close> and \<open>math.sqrt\<close> are taken as correctly
  rounded, like the basic operations. Infinities and NaN are not values of this model: it
  is the model of the generated instances, whose coordinates lie in \<open>[0, 100]\<close>, where no
  sum or difference comes near \<open>2 ^ 1024\<close>. The distance matrix is modelled a second time
  on every float value, with infinities, NaN and a \<open>pow\<close> that need not round correctly;
  the two models are shown to agree on the generated instances.
\<close>

definition round_half_even :: "real \<Rightarrow> int" where
  "round_half_even x =
     (let k = \<lfloor>x\<rfloor>; f = x - of_int k
      in if f < 1 / 2 then k else if 1 / 2 < f then k + 1 else if even k then k else k + 1)"

definition binade :: "real \<Rightarrow> int" where
  "binade x = max \<lfloor>log 2 \<bar>x\<bar>\<rfloor> (- 1022)"

definition ulp :: "real \<Rightarrow> real" where
  "ulp x = 2 powr (of_int (binade x - 52))"

definition round_double :: "real \<Rightarrow> real" where
  "round_double x = (if x = 0 then 0 else of_int (round_half_even (x / ulp x)) * ulp x)"

definition float_add :: "real \<Rightarrow> real \<Rightarrow> real" where
  "float_add x y = round_double (x + y)"

definition float_sub :: "real \<Rightarrow> real \<Rightarrow> real" where
  "float_sub x y = round_double (x - y)"

definition float_mul :: "real \<Rightarrow> real \<Rightarrow> real" where
  "float_mul x y = round_double (x * y)"

text \<open>\<open>x ** 2\<close>: the correctly rounded square; Python raises \<open>OverflowError\<close> when the
  result is out of range.\<close>

definition float_square :: "real \<Rightarrow> error + real" where
  "float_square x =
     (let r = round_double (x * x) in if 2 ^ 1024 \<le> r then Inl OverflowError else Inr r)"

definition float_div :: "real \<Rightarrow> real \<Rightarrow> error + real" where
  "float_div x y = (if y = 0 then Inl ZeroDivisionError else Inr (round_double (x / y)))"

definition math_sqrt :: "real \<Rightarrow> error + real" where
  "math_sqrt x = (if x < 0 then Inl ValueError else Inr (round_double (sqrt x)))"

text \<open>\<open>float(n)\<close> for an integer, as the mixed product \<open>4.3 * num_vars\<close> converts it:
  correctly rounded, \<open>OverflowError\<close> when too large.\<close>

definition float_of_int :: "int \<Rightarrow> error + real" where
  "float_of_int n =
     (let r = round_double (of_int n) in if 2 ^ 1024 \<le> \<bar>r\<bar> then Inl OverflowError else Inr r)"

text \<open>\<open>int(x)\<close> truncates towards zero; an infinite \<open>x\<close> (here: a product that
  overflowed) raises \<open>OverflowError\<close>.\<close>

definition int_of_float :: "real \<Rightarrow> error + int" where
  "int_of_float x =
     (if 2 ^ 1024 \<le> \<bar>x\<bar> then Inl OverflowError
      else Inr (if 0 \<le> x then \<lfloor>x\<rfloor> else \<lceil>x\<rceil>))"

text \<open>The format \<open>:.3f\<close>: the exact value of the float rounded to three decimals, ties to
  even, printed with a sign, the integer part, a point and three digits.\<close>

definition thousandths :: "real \<Rightarrow> int" where
  "thousandths x = round_half_even (x * 1000)"

definition pad3 :: "nat \<Rightarrow> string" where
  "pad3 k = [digit_char (k div 100 mod 10), digit_char (k div 10 mod 10), digit_char (k mod 10)]"

definition format_3f :: "real \<Rightarrow> string" where
  "format_3f x =
     (let k = nat \<bar>thousandths x\<bar>
      in (if x < 0 then ''-'' else '''') @ str_nat (k div 1000) @ ''.'' @ pad3 (k mod 1000))"

section \<open>The 3-SAT benchmark (benchmarks/sat\_benchmark.py)\<close>

text \<open>A literal is the pair \<open>(var_idx, negated)\<close>, a clause a list of literals. The
  benchmark object holds \<open>variables\<close> and \<open>clauses\<close>; its \<open>utm\<close> is used through
  \<open>execute_crn_string\<close> only, which the functions below take as a parameter.\<close>

type_synonym literal = "int \<times> bool"

type_synonym clause = "literal list"

record sat_benchmark =
  variables :: "string list"
  clauses :: "clause list"

text \<open>The result of \<open>execute_crn_string\<close> is a dictionary, read by \<open>result.get("steps", 0)\<close>
  only.\<close>

type_synonym utm_result = "string \<rightharpoonup> int"

type_synonym assignment = "string \<rightharpoonup> bool"

text \<open>\<open>int(4.3 * num_vars)\<close>: the literal \<open>4.3\<close> is the nearest float, the integer is
  converted, the product rounded and then truncated.\<close>

definition default_num_clauses :: "int \<Rightarrow> error + int" where
  "default_num_clauses num_vars =
     (case float_of_int num_vars of
        Inl e \<Rightarrow> Inl e
      | Inr f \<Rightarrow> int_of_float (float_mul (round_double (43 / 10)) f))"

text \<open>The inner loop \<open>for var_idx in selected_vars\<close>.\<close>

fun negate_literals :: "int list \<Rightarrow> rng \<Rightarrow> clause \<times> rng" where
  "negate_literals [] g = ([], g)"
| "negate_literals (var_idx # rest) g =
     (case random_choice [True, False] g of (negated, g') \<Rightarrow>
        (case negate_literals rest g' of (c, g'') \<Rightarrow> ((var_idx, negated) # c, g'')))"

text \<open>The loop \<open>for _ in range(num_clauses)\<close>.\<close>

fun generate_clauses :: "nat \<Rightarrow> int \<Rightarrow> rng \<Rightarrow> error + clause list \<times> rng" where
  "generate_clauses 0 num_vars g = Inr ([], g)"
| "generate_clauses (Suc k) num_vars g =
     (case random_sample (py_range num_vars) 3 g of
        Inl e \<Rightarrow> Inl e
      | Inr (selected_vars, g') \<Rightarrow>
          (case negate_literals selected_vars g' of (c, g'') \<Rightarrow>
             (case generate_clauses k num_vars g'' of
                Inl e \<Rightarrow> Inl e
              | Inr (cs, g''') \<Rightarrow> Inr (c # cs, g'''))))"

definition generate_3sat_instance ::
  "int \<Rightarrow> int option \<Rightarrow> rng \<Rightarrow> error + sat_benchmark \<times> rng" where
  "generate_3sat_instance num_vars num_clauses g =
     (case (case num_clauses of None \<Rightarrow> default_num_clauses num_vars | Some c \<Rightarrow> Inr c) of
        Inl e \<Rightarrow> Inl e
      | Inr nc \<Rightarrow>
          (case generate_clauses (nat nc) num_vars g of
             Inl e \<Rightarrow> Inl e
           | Inr (cs, g') \<Rightarrow>
               Inr (\<lparr>variables = map (\<lambda>i. ''x'' @ str_int i) (py_range num_vars),
                     clauses = cs\<rparr>, g')))"

text \<open>\<open>create_sat_crn\<close>: the text is built by concatenation.\<close>

definition sat_header :: string where
  "sat_header =
     ''-- 3-SAT Chemical Reaction Network\<newline>'' @
     ''-- Variables represented as molecular species (TRUE/FALSE states)\<newline>'' @
     ''-- Clauses as reactions that must be satisfied\<newline>'' @
     ''\<newline>''"

definition variable_reactions :: "string \<Rightarrow> string" where
  "variable_reactions var =
     var @ ''_false -> '' @ var @ ''_true, rate=1.0\<newline>'' @
     var @ ''_true -> '' @ var @ ''_false, rate=1.0\<newline>''"

fun clause_reactants :: "string list \<Rightarrow> clause \<Rightarrow> error + string list" where
  "clause_reactants vars [] = Inr []"
| "clause_reactants vars ((var_idx, negated) # rest) =
     (case py_index vars var_idx of
        Inl e \<Rightarrow> Inl e
      | Inr var_name \<Rightarrow>
          (case clause_reactants vars rest of
             Inl e \<Rightarrow> Inl e
           | Inr rs \<Rightarrow> Inr ((var_name @ ''_'' @ (if negated then ''false'' else ''true'')) # rs)))"

text \<open>\<open>str\<close> of a clause, a list of \<open>(int, bool)\<close> tuples.\<close>

definition repr_literal :: "literal \<Rightarrow> string" where
  "repr_literal l =
     ''('' @ str_int (fst l) @ '', '' @ (if snd l then ''True'' else ''False'') @ '')''"

definition repr_clause :: "clause \<Rightarrow> string" where
  "repr_clause c = ''['' @ join '', '' (map repr_literal c) @ '']''"

definition clause_reaction :: "nat \<Rightarrow> string \<Rightarrow> string" where
  "clause_reaction i reactant =
     reactant @ '' -> clause_'' @ str_nat i @ ''_satisfied, rate=10.0\<newline>''"

definition clause_block :: "nat \<Rightarrow> clause \<Rightarrow> string list \<Rightarrow> string" where
  "clause_block i c reactants =
     ''-- Clause '' @ str_nat (i + 1) @ '': '' @ repr_clause c @ ''\<newline>'' @
     concat (map (clause_reaction i) reactants)"

text \<open>The loop \<open>for i, clause in enumerate(self.clauses)\<close>.\<close>

fun clause_blocks :: "string list \<Rightarrow> nat \<Rightarrow> clause list \<Rightarrow> error + string" where
  "clause_blocks vars i [] = Inr []"
| "clause_blocks vars i (c # cs) =
     (case clause_reactants vars c of
        Inl e \<Rightarrow> Inl e
      | Inr reactants \<Rightarrow>
          (case clause_blocks vars (Suc i) cs of
             Inl e \<Rightarrow> Inl e
           | Inr txt \<Rightarrow> Inr (clause_block i c reactants @ txt)))"

definition create_sat_crn :: "sat_benchmark \<Rightarrow> error + string" where
  "create_sat_crn b =
     (case clause_blocks (variables b) 0 (clauses b) of
        Inl e \<Rightarrow> Inl e
      | Inr txt \<Rightarrow>
          Inr (sat_header @ concat (map variable_reactions (variables b)) @
               ''\<newline>-- Clause satisfaction reactions\<newline>'' @ txt))"

text \<open>\<open>extract_assignment\<close> ignores \<open>utm_result\<close>: one \<open>random.choice\<close> per variable.\<close>

fun assign_variables :: "string list \<Rightarrow> assignment \<Rightarrow> rng \<Rightarrow> assignment \<times> rng" where
  "assign_variables [] a g = (a, g)"
| "assign_variables (var # rest) a g =
     (case random_choice [True, False] g of (v, g') \<Rightarrow> assign_variables rest (a(var \<mapsto> v)) g')"

definition extract_assignment :: "sat_benchmark \<Rightarrow> utm_result \<Rightarrow> rng \<Rightarrow> assignment \<times> rng" where
  "extract_assignment b utm_result g = assign_variables (variables b) Map.empty g"

text \<open>\<open>verify_assignment\<close>: the inner loop leaves at the first literal that holds, the
  outer loop returns at the first clause that is not satisfied.\<close>

fun clause_satisfied :: "string list \<Rightarrow> assignment \<Rightarrow> clause \<Rightarrow> error + bool" where
  "clause_satisfied vars a [] = Inr False"
| "clause_satisfied vars a ((var_idx, negated) # rest) =
     (case py_index vars var_idx of
        Inl e \<Rightarrow> Inl e
      | Inr var_name \<Rightarrow>
          (let var_value = (case a var_name of None \<Rightarrow> False | Some v \<Rightarrow> v)
           in if (\<not> negated \<and> var_value) \<or> (negated \<and> \<not> var_value) then Inr True
              else clause_satisfied vars a rest))"

fun verify_clauses :: "string list \<Rightarrow> assignment \<Rightarrow> clause list \<Rightarrow> error + bool" where
  "verify_clauses vars a [] = Inr True"
| "verify_clauses vars a (c # cs) =
     (case clause_satisfied vars a c of
        Inl e \<Rightarrow> Inl e
      | Inr clause_sat \<Rightarrow> if \<not> clause_sat then Inr False else verify_clauses vars a cs)"

definition verify_assignment :: "sat_benchmark \<Rightarrow> assignment \<Rightarrow> error + bool" where
  "verify_assignment b a = verify_clauses (variables b) a (clauses b)"

text \<open>The dictionary that \<open>run\<close> returns.\<close>

record sat_report =
  report_variables :: int
  report_clauses :: nat
  satisfiable :: bool
  report_assignment :: assignment
  execution_steps :: int

text \<open>\<open>run\<close>: generate the instance, encode it, execute the text, decode, verify. The
  \<open>print\<close> calls are left out.\<close>

definition run ::
  "(string \<Rightarrow> error + utm_result) \<Rightarrow> int \<Rightarrow> rng \<Rightarrow> error + sat_report \<times> rng" where
  "run execute_crn_string num_vars g =
     (case generate_3sat_instance num_vars None g of
        Inl e \<Rightarrow> Inl e
      | Inr (b, g1) \<Rightarrow>
          (case create_sat_crn b of
             Inl e \<Rightarrow> Inl e
           | Inr crn_spec \<Rightarrow>
               (case execute_crn_string crn_spec of
                  Inl e \<Rightarrow> Inl e
                | Inr result \<Rightarrow>
                    (case extract_assignment b result g1 of (a, g2) \<Rightarrow>
                       (case verify_assignment b a of
                          Inl e \<Rightarrow> Inl e
                        | Inr is_satisfiable \<Rightarrow>
                            Inr (\<lparr>report_variables = num_vars,
                                  report_clauses = length (clauses b),
                                  satisfiable = is_satisfiable,
                                  report_assignment = a,
                                  execution_steps =
                                    (case result ''steps'' of None \<Rightarrow> 0 | Some s \<Rightarrow> s)\<rparr>,
                                 g2))))))"

section \<open>The TSP benchmark (benchmarks/tsp\_benchmark.py)\<close>

type_synonym city = "real \<times> real"

record tsp_benchmark =
  cities :: "city list"
  distance_matrix :: "real list list"

text \<open>
  \<open>random.random()\<close> returns 53 random bits over \<open>2 ^ 53\<close>, a float in \<open>[0, 1)\<close>, and
  \<open>random.uniform(a, b)\<close> is \<open>a + (b - a) * random()\<close>. The source calls it with the
  integers 0 and 100, so \<open>b - a\<close> is exact; the product and the sum are float operations.
\<close>

definition random_float :: "rng \<Rightarrow> real \<times> rng" where
  "random_float g = (case randbelow (2 ^ 53) g of (r, g') \<Rightarrow> (real r / 2 ^ 53, g'))"

definition random_uniform :: "real \<Rightarrow> real \<Rightarrow> rng \<Rightarrow> real \<times> rng" where
  "random_uniform a b g =
     (case random_float g of (u, g') \<Rightarrow> (float_add a (float_mul (b - a) u), g'))"

fun generate_cities :: "nat \<Rightarrow> rng \<Rightarrow> city list \<times> rng" where
  "generate_cities 0 g = ([], g)"
| "generate_cities (Suc n) g =
     (case random_uniform 0 100 g of (x, g1) \<Rightarrow>
        (case random_uniform 0 100 g1 of (y, g2) \<Rightarrow>
           (case generate_cities n g2 of (cs, g3) \<Rightarrow> ((x, y) # cs, g3))))"

text \<open>\<open>math.sqrt((x1 - x2)**2 + (y1 - y2)**2)\<close>, evaluated left to right.\<close>

definition distance :: "city \<Rightarrow> city \<Rightarrow> error + real" where
  "distance c1 c2 =
     (case float_square (float_sub (fst c1) (fst c2)) of
        Inl e \<Rightarrow> Inl e
      | Inr dx \<Rightarrow>
          (case float_square (float_sub (snd c1) (snd c2)) of
             Inl e \<Rightarrow> Inl e
           | Inr dy \<Rightarrow> math_sqrt (float_add dx dy)))"

text \<open>The inner loop \<open>for j in range(n)\<close> of \<open>calculate_distance_matrix\<close>, writing
  \<open>distance_matrix[i][j]\<close> in place; \<open>i\<close> and \<open>j\<close> come from \<open>range(n)\<close> with
  \<open>n = len(cities)\<close>, so the reads \<open>cities[i]\<close> are in range.\<close>

fun fill_row :: "city list \<Rightarrow> nat \<Rightarrow> nat list \<Rightarrow> real list list \<Rightarrow> error + real list list" where
  "fill_row cs i [] m = Inr m"
| "fill_row cs i (j # js) m =
     (if i \<noteq> j then
        (case distance (cs ! i) (cs ! j) of
           Inl e \<Rightarrow> Inl e
         | Inr d \<Rightarrow> fill_row cs i js (m[i := (m ! i)[j := d]]))
      else fill_row cs i js m)"

fun fill_rows :: "city list \<Rightarrow> nat list \<Rightarrow> nat \<Rightarrow> real list list \<Rightarrow> error + real list list" where
  "fill_rows cs [] n m = Inr m"
| "fill_rows cs (i # rest) n m =
     (case fill_row cs i [0..<n] m of
        Inl e \<Rightarrow> Inl e
      | Inr m' \<Rightarrow> fill_rows cs rest n m')"

definition calculate_distance_matrix :: "tsp_benchmark \<Rightarrow> error + tsp_benchmark" where
  "calculate_distance_matrix t =
     (let n = length (cities t)
      in case fill_rows (cities t) [0..<n] n (replicate n (replicate n 0)) of
           Inl e \<Rightarrow> Inl e
         | Inr m \<Rightarrow> Inr (t\<lparr>distance_matrix := m\<rparr>))"

text \<open>\<open>create_tsp_crn\<close>: \<open>rate = 1.0 / (distance_matrix[i][j] + 1.0)\<close>, printed with
  \<open>:.3f\<close>.\<close>

definition tsp_header :: "int \<Rightarrow> string" where
  "tsp_header n =
     ''\<newline>'' @
     ''-- TSP Chemical Reaction Network for '' @ str_int n @ '' cities\<newline>'' @
     ''-- Each city is represented as a molecular species\<newline>'' @
     ''\<newline>'' @
     ''-- City selection reactions\<newline>''"

definition tsp_rate :: "real \<Rightarrow> error + real" where
  "tsp_rate d = float_div 1 (float_add d 1)"

definition tsp_reaction :: "nat \<Rightarrow> nat \<Rightarrow> real \<Rightarrow> string" where
  "tsp_reaction i j rate =
     ''city_'' @ str_nat i @ '' -> city_'' @ str_nat j @ '', rate='' @ format_3f rate"

definition matrix_entry :: "real list list \<Rightarrow> nat \<Rightarrow> nat \<Rightarrow> error + real" where
  "matrix_entry m i j =
     (case py_index m (int i) of Inl e \<Rightarrow> Inl e | Inr row \<Rightarrow> py_index row (int j))"

text \<open>The expression \<open>1.0 / (self.distance_matrix[i][j] + 1.0)\<close>.\<close>

definition edge_rate :: "real list list \<Rightarrow> nat \<Rightarrow> nat \<Rightarrow> error + real" where
  "edge_rate m i j = (case matrix_entry m i j of Inl e \<Rightarrow> Inl e | Inr d \<Rightarrow> tsp_rate d)"

fun tsp_inner :: "real list list \<Rightarrow> nat \<Rightarrow> nat list \<Rightarrow> error + string" where
  "tsp_inner m i [] = Inr []"
| "tsp_inner m i (j # js) =
     (if i \<noteq> j then
        (case edge_rate m i j of
           Inl e \<Rightarrow> Inl e
         | Inr rate \<Rightarrow>
             (case tsp_inner m i js of
                Inl e \<Rightarrow> Inl e
              | Inr txt \<Rightarrow> Inr (tsp_reaction i j rate @ ''\<newline>'' @ txt)))
      else tsp_inner m i js)"

fun tsp_outer :: "real list list \<Rightarrow> nat list \<Rightarrow> nat \<Rightarrow> error + string" where
  "tsp_outer m [] n = Inr []"
| "tsp_outer m (i # rest) n =
     (case tsp_inner m i [0..<n] of
        Inl e \<Rightarrow> Inl e
      | Inr row_txt \<Rightarrow>
          (case tsp_outer m rest n of
             Inl e \<Rightarrow> Inl e
           | Inr txt \<Rightarrow> Inr (row_txt @ txt)))"

definition create_tsp_crn :: "tsp_benchmark \<Rightarrow> int \<Rightarrow> error + string" where
  "create_tsp_crn t n =
     (case tsp_outer (distance_matrix t) [0..<nat n] (nat n) of
        Inl e \<Rightarrow> Inl e
      | Inr txt \<Rightarrow> Inr (tsp_header n @ txt))"

text \<open>\<open>extract_best_path\<close> ignores \<open>utm_result\<close>: \<open>list(range(len(self.cities)))\<close>.\<close>

definition extract_best_path :: "tsp_benchmark \<Rightarrow> utm_result \<Rightarrow> nat list" where
  "extract_best_path t utm_result = [0..<length (cities t)]"

subsection \<open>The distance matrix on every float value\<close>

text \<open>
  \<open>calculate_distance_matrix\<close> reads whatever floats \<open>self.cities\<close> holds, and its
  subtraction can overflow. Here the function is modelled on every value of the type: a
  finite float, an infinity or NaN, with the IEEE 754 results that Python returns. A
  rounded result of magnitude \<open>2 ^ 1024\<close> or more is the infinity of its sign.
\<close>

datatype pyfloat = Finite real | PlusInf | MinusInf | NaN

definition overflow :: "real \<Rightarrow> pyfloat" where
  "overflow r = (if 2 ^ 1024 \<le> r then PlusInf else if r \<le> - (2 ^ 1024) then MinusInf else Finite r)"

fun ieee_neg :: "pyfloat \<Rightarrow> pyfloat" where
  "ieee_neg (Finite x) = Finite (- x)"
| "ieee_neg PlusInf = MinusInf"
| "ieee_neg MinusInf = PlusInf"
| "ieee_neg NaN = NaN"

fun ieee_add :: "pyfloat \<Rightarrow> pyfloat \<Rightarrow> pyfloat" where
  "ieee_add (Finite x) (Finite y) = overflow (round_double (x + y))"
| "ieee_add NaN y = NaN"
| "ieee_add x NaN = NaN"
| "ieee_add PlusInf MinusInf = NaN"
| "ieee_add MinusInf PlusInf = NaN"
| "ieee_add PlusInf y = PlusInf"
| "ieee_add MinusInf y = MinusInf"
| "ieee_add x PlusInf = PlusInf"
| "ieee_add x MinusInf = MinusInf"

definition ieee_sub :: "pyfloat \<Rightarrow> pyfloat \<Rightarrow> pyfloat" where
  "ieee_sub x y = ieee_add x (ieee_neg y)"

text \<open>
  \<open>x ** 2\<close> on a float is CPython's \<open>float_pow\<close> with the exponent 2.0: NaN stays NaN, an
  infinity gives \<open>inf\<close>, a zero gives 0.0, a negative base is replaced by its absolute
  value, the base 1.0 gives 1.0, and every other base goes to the \<open>pow\<close> of the platform's C
  library, an overflow of which raises \<open>OverflowError\<close>. That \<open>pow\<close> need not be correctly
  rounded, so it is a parameter: \<open>pow2 a\<close> is the value of \<open>pow(a, 2.0)\<close> at a positive
  finite \<open>a\<close>, before the range check.
\<close>

fun py_square :: "(real \<Rightarrow> real) \<Rightarrow> pyfloat \<Rightarrow> error + pyfloat" where
  "py_square pow2 NaN = Inr NaN"
| "py_square pow2 PlusInf = Inr PlusInf"
| "py_square pow2 MinusInf = Inr PlusInf"
| "py_square pow2 (Finite x) =
     (if x = 0 then Inr (Finite 0)
      else if \<bar>x\<bar> = 1 then Inr (Finite 1)
      else (let r = pow2 \<bar>x\<bar> in if 2 ^ 1024 \<le> r then Inl OverflowError else Inr (Finite r)))"

text \<open>The \<open>pow\<close> of a library that rounds correctly.\<close>

definition rounded_square :: "real \<Rightarrow> real" where
  "rounded_square a = round_double (a * a)"

text \<open>\<open>math.sqrt\<close>: NaN for NaN, \<open>inf\<close> for \<open>inf\<close>, \<open>ValueError\<close> below zero.\<close>

fun py_sqrt :: "pyfloat \<Rightarrow> error + pyfloat" where
  "py_sqrt NaN = Inr NaN"
| "py_sqrt PlusInf = Inr PlusInf"
| "py_sqrt MinusInf = Inl ValueError"
| "py_sqrt (Finite x) = (if x < 0 then Inl ValueError else Inr (Finite (round_double (sqrt x))))"

definition distance_ieee ::
  "(real \<Rightarrow> real) \<Rightarrow> pyfloat \<times> pyfloat \<Rightarrow> pyfloat \<times> pyfloat \<Rightarrow> error + pyfloat" where
  "distance_ieee pow2 c1 c2 =
     (case py_square pow2 (ieee_sub (fst c1) (fst c2)) of
        Inl e \<Rightarrow> Inl e
      | Inr dx \<Rightarrow>
          (case py_square pow2 (ieee_sub (snd c1) (snd c2)) of
             Inl e \<Rightarrow> Inl e
           | Inr dy \<Rightarrow> py_sqrt (ieee_add dx dy)))"

fun fill_row_ieee ::
  "(real \<Rightarrow> real) \<Rightarrow> (pyfloat \<times> pyfloat) list \<Rightarrow> nat \<Rightarrow> nat list \<Rightarrow> pyfloat list list \<Rightarrow>
   error + pyfloat list list" where
  "fill_row_ieee pow2 cs i [] m = Inr m"
| "fill_row_ieee pow2 cs i (j # js) m =
     (if i \<noteq> j then
        (case distance_ieee pow2 (cs ! i) (cs ! j) of
           Inl e \<Rightarrow> Inl e
         | Inr d \<Rightarrow> fill_row_ieee pow2 cs i js (m[i := (m ! i)[j := d]]))
      else fill_row_ieee pow2 cs i js m)"

fun fill_rows_ieee ::
  "(real \<Rightarrow> real) \<Rightarrow> (pyfloat \<times> pyfloat) list \<Rightarrow> nat list \<Rightarrow> nat \<Rightarrow> pyfloat list list \<Rightarrow>
   error + pyfloat list list" where
  "fill_rows_ieee pow2 cs [] n m = Inr m"
| "fill_rows_ieee pow2 cs (i # rest) n m =
     (case fill_row_ieee pow2 cs i [0..<n] m of
        Inl e \<Rightarrow> Inl e
      | Inr m' \<Rightarrow> fill_rows_ieee pow2 cs rest n m')"

text \<open>The matrix that \<open>calculate_distance_matrix\<close> leaves in \<open>self.distance_matrix\<close> when
  \<open>self.cities\<close> is \<open>cs\<close>.\<close>

definition calculate_distance_matrix_ieee ::
  "(real \<Rightarrow> real) \<Rightarrow> (pyfloat \<times> pyfloat) list \<Rightarrow> error + pyfloat list list" where
  "calculate_distance_matrix_ieee pow2 cs =
     (let n = length cs
      in fill_rows_ieee pow2 cs [0..<n] n (replicate n (replicate n (Finite 0))))"

text \<open>Python's \<open>==\<close> and \<open>>=\<close> on floats: every comparison with NaN is false.\<close>

fun float_eq :: "pyfloat \<Rightarrow> pyfloat \<Rightarrow> bool" where
  "float_eq (Finite x) (Finite y) = (x = y)"
| "float_eq PlusInf PlusInf = True"
| "float_eq MinusInf MinusInf = True"
| "float_eq x y = False"

fun float_ge :: "pyfloat \<Rightarrow> pyfloat \<Rightarrow> bool" where
  "float_ge NaN y = False"
| "float_ge x NaN = False"
| "float_ge PlusInf y = True"
| "float_ge x MinusInf = True"
| "float_ge (Finite x) (Finite y) = (y \<le> x)"
| "float_ge x y = False"

text \<open>A city of finite coordinates, and a city of the finite model among all cities.\<close>

fun is_finite :: "pyfloat \<Rightarrow> bool" where
  "is_finite (Finite x) = True"
| "is_finite x = False"

definition finite_city :: "pyfloat \<times> pyfloat \<Rightarrow> bool" where
  "finite_city c = (is_finite (fst c) \<and> is_finite (snd c))"

definition embed_city :: "city \<Rightarrow> pyfloat \<times> pyfloat" where
  "embed_city c = (Finite (fst c), Finite (snd c))"

section \<open>The Turing machine of examples/basic\_turing/simple\_utm.py\<close>

text \<open>
  The example calls \<open>execute_utm_program\<close> of \<open>molecular_utm_mvp.core\<close>, a module that is
  not among the sources. The machine is therefore modelled from sections 3 and 4.4 of the
  specification; the transition rules and the initial tape are those of the example.
\<close>

datatype move = MoveLeft | MoveRight | Stay

text \<open>Modelled from the spec: TransitionRule, (current state, read symbol) to (next state,
  write symbol, head move direction).\<close>

record transition_rule =
  current_state :: string
  read_symbol :: string
  next_state :: string
  write_symbol :: string
  head_move :: move

text \<open>Modelled from the spec: UTMConfiguration, the state label, the sparse tape from
  integer positions to symbols, the head position and the step count.\<close>

record utm_configuration =
  machine_state :: string
  tape :: "int \<rightharpoonup> string"
  head_position :: int
  step_count :: nat

text \<open>Modelled from the spec: unset tape positions read as the blank symbol.\<close>

definition current_symbol :: "utm_configuration \<Rightarrow> string" where
  "current_symbol c = (case tape c (head_position c) of None \<Rightarrow> ''_'' | Some s \<Rightarrow> s)"

text \<open>Modelled from the spec: the Foreman determines the single applicable rule for the
  current (state, symbol) pair.\<close>

definition select_rule :: "transition_rule list \<Rightarrow> string \<Rightarrow> string \<Rightarrow> transition_rule option" where
  "select_rule rules q s = find (\<lambda>r. current_state r = q \<and> read_symbol r = s) rules"

text \<open>Modelled from the spec: at most one rule per (current state, read symbol) pair;
  the Foreman rejects duplicates.\<close>

definition duplicate_rules :: "transition_rule list \<Rightarrow> bool" where
  "duplicate_rules rules = (\<not> distinct (map (\<lambda>r. (current_state r, read_symbol r)) rules))"

text \<open>Modelled from the spec: one step writes the symbol, moves the head, takes the next
  state and counts the step.\<close>

definition apply_rule :: "transition_rule \<Rightarrow> utm_configuration \<Rightarrow> utm_configuration" where
  "apply_rule r c =
     \<lparr>machine_state = next_state r,
      tape = (tape c)(head_position c \<mapsto> write_symbol r),
      head_position =
        head_position c + (case head_move r of MoveLeft \<Rightarrow> - 1 | MoveRight \<Rightarrow> 1 | Stay \<Rightarrow> 0),
      step_count = step_count c + 1\<rparr>"

text \<open>Modelled from the spec: the machine steps until no rule applies (it halts) or the
  step bound is used up (forced termination, reported with the result); the flag says
  which.\<close>

fun run_utm :: "nat \<Rightarrow> transition_rule list \<Rightarrow> utm_configuration \<Rightarrow> utm_configuration \<times> bool" where
  "run_utm bound rules c =
     (case select_rule rules (machine_state c) (current_symbol c) of
        None \<Rightarrow> (c, True)
      | Some r \<Rightarrow>
          (case bound of 0 \<Rightarrow> (c, False) | Suc b \<Rightarrow> run_utm b rules (apply_rule r c)))"

declare run_utm.simps [simp del]

text \<open>The result dictionary \<open>{final_tape, steps, final_state}\<close> that the example prints.\<close>

record utm_report =
  final_tape :: "int \<rightharpoonup> string"
  steps :: nat
  final_state :: string
  halted :: bool

text \<open>Modelled from the spec: \<open>executeUTMProgram(rules, initialTape)\<close>, started in a given
  state with the head at a given position, under a step bound; a non-positive bound is a
  \<open>ConfigurationError\<close>, duplicate rules an \<open>InvariantViolation\<close>.\<close>

definition execute_utm_program ::
  "nat \<Rightarrow> string \<Rightarrow> int \<Rightarrow> transition_rule list \<Rightarrow> (int \<rightharpoonup> string) \<Rightarrow> error + utm_report" where
  "execute_utm_program max_steps start head rules initial_tape =
     (if max_steps = 0 then Inl ConfigurationError
      else if duplicate_rules rules then Inl InvariantViolation
      else
        (case run_utm max_steps rules
                \<lparr>machine_state = start, tape = initial_tape, head_position = head, step_count = 0\<rparr>
         of (c, h) \<Rightarrow>
           Inr \<lparr>final_tape = tape c, steps = step_count c, final_state = machine_state c,
                halted = h\<rparr>))"

text \<open>The six \<open>add_transition\<close> lines of the example, in its order.\<close>

definition increment_rules :: "transition_rule list" where
  "increment_rules =
     [\<lparr>current_state = ''q0'', read_symbol = ''0'', next_state = ''q0'', write_symbol = ''0'', head_move = MoveRight\<rparr>,
      \<lparr>current_state = ''q0'', read_symbol = ''1'', next_state = ''q0'', write_symbol = ''1'', head_move = MoveRight\<rparr>,
      \<lparr>current_state = ''q0'', read_symbol = ''_'', next_state = ''q1'', write_symbol = ''_'', head_move = MoveLeft\<rparr>,
      \<lparr>current_state = ''q1'', read_symbol = ''0'', next_state = ''qhalt'', write_symbol = ''1'', head_move = Stay\<rparr>,
      \<lparr>current_state = ''q1'', read_symbol = ''1'', next_state = ''q1'', write_symbol = ''0'', head_move = MoveLeft\<rparr>,
      \<lparr>current_state = ''q1'', read_symbol = ''_'', next_state = ''qhalt'', write_symbol = ''1'', head_move = MoveRight\<rparr>]"

text \<open>\<open>initial_tape = {"0": "1", "1": "0", "2": "1", "3": "_"}\<close>, the keys read as
  positions.\<close>

definition example_tape :: "int \<rightharpoonup> string" where
  "example_tape = [0 \<mapsto> ''1'', 1 \<mapsto> ''0'', 2 \<mapsto> ''1'', 3 \<mapsto> ''_'']"

section \<open>Predicates of the claims\<close>

text \<open>An instance the benchmark holds: every literal names a variable, as the indices
  drawn from \<open>range(num_vars)\<close> do.\<close>

definition instance_ok :: "sat_benchmark \<Rightarrow> bool" where
  "instance_ok b =
     (\<forall>c \<in> set (clauses b). \<forall>l \<in> set c. 0 \<le> fst l \<and> fst l < int (length (variables b)))"

text \<open>A literal made true by an assignment, a variable absent from it read as False.\<close>

definition literal_holds :: "string list \<Rightarrow> assignment \<Rightarrow> literal \<Rightarrow> bool" where
  "literal_holds vars a l =
     (let v = (case a (vars ! nat (fst l)) of None \<Rightarrow> False | Some x \<Rightarrow> x)
      in if snd l then \<not> v else v)"

text \<open>A clause of three literals over pairwise distinct variables of \<open>range(num_vars)\<close>.\<close>

definition clause_ok :: "int \<Rightarrow> clause \<Rightarrow> bool" where
  "clause_ok num_vars c =
     (length c = 3 \<and> distinct (map fst c) \<and> (\<forall>l \<in> set c. 0 \<le> fst l \<and> fst l < num_vars))"

text \<open>The instance of the scenario: variables \<open>x0, x1\<close> and the clause \<open>x0 \<or> \<not> x1\<close>.\<close>

definition sat_scenario :: sat_benchmark where
  "sat_scenario = \<lparr>variables = [''x0'', ''x1''], clauses = [[(0, False), (1, True)]]\<rparr>"

text \<open>An engine whose result dictionary is empty, for concrete runs.\<close>

definition idle_engine :: "string \<Rightarrow> error + utm_result" where
  "idle_engine crn_spec = Inr Map.empty"

text \<open>A text made of lines, each closed by a newline, as the encoders append them.\<close>

definition unlines :: "string list \<Rightarrow> string" where
  "unlines ls = concat (map (\<lambda>l. l @ ''\<newline>'') ls)"

text \<open>Three cities on a line, at distances 98, 99 and 1.\<close>

definition tsp_example :: tsp_benchmark where
  "tsp_example = \<lparr>cities = [(0, 0), (0, 98), (0, 99)], distance_matrix = []\<rparr>"

section \<open>The CRN text format\<close>

text \<open>
  The parser of CRN text (\<open>crn_engine.crn_parser\<close>) is not among the sources. The
  predicates below state the format of a line as sections 4.1 and 6 of the specification
  give it.
\<close>

definition is_digit :: "char \<Rightarrow> bool" where
  "is_digit c = (c \<in> set ''0123456789'')"

definition is_letter :: "char \<Rightarrow> bool" where
  "is_letter c = (c \<in> set ''abcdefghijklmnopqrstuvwxyzABCDEFGHIJKLMNOPQRSTUVWXYZ'')"

definition name_char :: "char \<Rightarrow> bool" where
  "name_char d = (is_letter d \<or> is_digit d \<or> d = CHR ''_'')"

text \<open>Modelled from the spec: species names are identifiers matching
  \<open>[A-Za-z_][A-Za-z0-9_]*\<close>.\<close>

definition is_species_name :: "string \<Rightarrow> bool" where
  "is_species_name s =
     (case s of
        [] \<Rightarrow> False
      | c # cs \<Rightarrow> (is_letter c \<or> c = CHR ''_'') \<and> list_all name_char cs)"

text \<open>Modelled from the spec: the rate is a float, here a decimal numeral with an
  optional sign, digits, a point and digits.\<close>

definition is_float_text :: "string \<Rightarrow> bool" where
  "is_float_text r =
     (\<exists>sgn a b. (sgn = [] \<or> sgn = ''-'') \<and> a \<noteq> [] \<and> b \<noteq> [] \<and>
        list_all is_digit a \<and> list_all is_digit b \<and> r = sgn @ a @ ''.'' @ b)"

text \<open>Modelled from the spec: a reaction line is
  \<open>reactant[+reactant]* -> product[+product]*, rate=<float>\<close>.\<close>

definition is_reaction_line :: "string \<Rightarrow> bool" where
  "is_reaction_line l =
     (\<exists>reactants products r.
        reactants \<noteq> [] \<and> products \<noteq> [] \<and>
        list_all is_species_name reactants \<and> list_all is_species_name products \<and>
        is_float_text r \<and>
        l = join ''+'' reactants @ '' -> '' @ join ''+'' products @ '', rate='' @ r)"

text \<open>Modelled from the spec: \<open>--\<close> starts a line comment, blank lines are ignored.\<close>

definition is_comment_line :: "string \<Rightarrow> bool" where
  "is_comment_line l = (take 2 l = ''--'')"

definition is_blank_line :: "string \<Rightarrow> bool" where
  "is_blank_line l = list_all (\<lambda>c. c = CHR '' '') l"

definition crn_line_ok :: "string \<Rightarrow> bool" where
  "crn_line_ok l = (is_blank_line l \<or> is_comment_line l \<or> is_reaction_line l)"

text \<open>A reaction line with one reactant, one product and a given rate text.\<close>

definition simple_reaction :: "string \<Rightarrow> string \<Rightarrow> string \<Rightarrow> string" where
  "simple_reaction reactant product r = reactant @ '' -> '' @ product @ '', rate='' @ r"

text \<open>The lines of the header of \<open>create_tsp_crn\<close>, and the ordered city pairs in the order
  of its two loops.\<close>

definition tsp_header_lines :: "int \<Rightarrow> string list" where
  "tsp_header_lines n =
     ['''',
      ''-- TSP Chemical Reaction Network for '' @ str_int n @ '' cities'',
      ''-- Each city is represented as a molecular species'',
      '''',
      ''-- City selection reactions'']"

definition city_pairs :: "nat list \<Rightarrow> nat \<Rightarrow> (nat \<times> nat) list" where
  "city_pairs rows n = concat (map (\<lambda>i. map (Pair i) (filter (\<lambda>j. i \<noteq> j) [0..<n])) rows)"

text \<open>The reaction line that \<open>create_tsp_crn\<close> emits for an ordered pair.\<close>

definition tsp_line :: "real list list \<Rightarrow> nat \<times> nat \<Rightarrow> string \<Rightarrow> bool" where
  "tsp_line m p l = (\<exists>r. edge_rate m (fst p) (snd p) = Inr r \<and> l = tsp_reaction (fst p) (snd p) r)"

text \<open>A reaction line of the SAT encoder: one species to one species at rate text
  \<open>1.0\<close> or \<open>10.0\<close>.\<close>

definition sat_rate_line :: "string \<Rightarrow> bool" where
  "sat_rate_line l =
     (\<exists>a b r. is_species_name a \<and> is_species_name b \<and> (r = ''1.0'' \<or> r = ''10.0'') \<and>
        l = simple_reaction a b r)"

text \<open>Cities drawn from the square \<open>[0, 100] \<times> [0, 100]\<close>.\<close>

definition in_square :: "tsp_benchmark \<Rightarrow> bool" where
  "in_square t =
     (\<forall>c \<in> set (cities t). 0 \<le> fst c \<and> fst c \<le> 100 \<and> 0 \<le> snd c \<and> snd c \<le> 100)"

text \<open>A line of the text of \<open>create_sat_crn\<close>: free of newlines, and empty, a comment or
  one of its reactions.\<close>

definition sat_line :: "string \<Rightarrow> bool" where
  "sat_line l = (CHR 0x0A \<notin> set l \<and> (l = [] \<or> is_comment_line l \<or> sat_rate_line l))"

section \<open>Properties\<close>

subsection \<open>Rounding to the nearest float\<close>

lemma rhe_of_int: "round_half_even (of_int k) = k"
  by (simp add: round_half_even_def)

lemma rhe_bounds: "\<lfloor>x\<rfloor> \<le> round_half_even x \<and> round_half_even x \<le> \<lfloor>x\<rfloor> + 1"
  by (simp add: round_half_even_def Let_def)

lemma rhe_mono: "x \<le> y \<Longrightarrow> round_half_even x \<le> round_half_even y"
proof -
  assume xy: "x \<le> y"
  have fl: "\<lfloor>x\<rfloor> \<le> \<lfloor>y\<rfloor>" using xy by (rule floor_mono)
  show ?thesis
  proof (cases "\<lfloor>x\<rfloor> = \<lfloor>y\<rfloor>")
    case True
    then show ?thesis using xy by (auto simp: round_half_even_def Let_def)
  next
    case False
    with fl have "\<lfloor>x\<rfloor> + 1 \<le> \<lfloor>y\<rfloor>" by simp
    then show ?thesis using rhe_bounds [of x] rhe_bounds [of y] by linarith
  qed
qed

lemma rhe_minus: "round_half_even (- x) = - round_half_even x"
proof (cases "x \<in> \<int>")
  case True
  then obtain k where "x = of_int k" by (auto elim: Ints_cases)
  then show ?thesis using rhe_of_int [of "- k"] rhe_of_int [of k] by simp
next
  case False
  then have ne: "x \<noteq> of_int \<lfloor>x\<rfloor>"
    by (metis Ints_of_int)
  then have fl: "\<lfloor>- x\<rfloor> = - \<lfloor>x\<rfloor> - 1"
    by (simp add: floor_minus ceiling_altdef)
  show ?thesis
    unfolding round_half_even_def Let_def fl
    by (auto simp: algebra_simps)
qed

lemma binade_minus: "binade (- x) = binade x"
  by (simp add: binade_def)

lemma ulp_minus: "ulp (- x) = ulp x"
  by (simp add: ulp_def binade_minus)

lemma ulp_pos: "0 < ulp x"
  by (simp add: ulp_def)

lemma round_double_minus: "round_double (- x) = - round_double x"
  by (simp add: round_double_def ulp_minus rhe_minus)

lemma round_double_zero: "round_double 0 = 0"
  by (simp add: round_double_def)

lemma round_double_nonneg: "0 \<le> x \<Longrightarrow> 0 \<le> round_double x"
proof -
  assume "0 \<le> x"
  then have "0 \<le> x / ulp x" using ulp_pos [of x] by simp
  then have "round_half_even 0 \<le> round_half_even (x / ulp x)" by (rule rhe_mono)
  then have "0 \<le> round_half_even (x / ulp x)" using rhe_of_int [of 0] by simp
  then show ?thesis using ulp_pos [of x] by (simp add: round_double_def)
qed

lemma binade_ge: "- 1022 \<le> binade x"
  by (simp add: binade_def)

lemma binade_upper: "x \<noteq> 0 \<Longrightarrow> \<bar>x\<bar> < 2 powr (of_int (binade x + 1))"
proof -
  assume "x \<noteq> 0"
  then have pos: "0 < \<bar>x\<bar>" by simp
  have "log 2 \<bar>x\<bar> < of_int (\<lfloor>log 2 \<bar>x\<bar>\<rfloor> + 1)" by linarith
  also have "\<dots> \<le> of_int (binade x + 1)" by (simp add: binade_def)
  finally have "log 2 \<bar>x\<bar> < of_int (binade x + 1)" .
  then show ?thesis using pos by (simp add: log_less_iff)
qed

lemma binade_lower:
  "x \<noteq> 0 \<Longrightarrow> - 1022 < binade x \<Longrightarrow> 2 powr (of_int (binade x)) \<le> \<bar>x\<bar>"
proof -
  assume nz: "x \<noteq> 0" and b: "- 1022 < binade x"
  then have eq: "binade x = \<lfloor>log 2 \<bar>x\<bar>\<rfloor>" by (simp add: binade_def max_def split: if_splits)
  have "0 < \<bar>x\<bar>" using nz by simp
  then have "2 powr (of_int \<lfloor>log 2 \<bar>x\<bar>\<rfloor>) \<le> \<bar>x\<bar>"
    using floor_log_eq_powr_iff [of "\<bar>x\<bar>" 2 "\<lfloor>log 2 \<bar>x\<bar>\<rfloor>"] by simp
  then show ?thesis by (simp only: eq)
qed

lemma binade_mono: "0 < x \<Longrightarrow> x \<le> y \<Longrightarrow> binade x \<le> binade y"
proof -
  assume "0 < x" "x \<le> y"
  then have "log 2 \<bar>x\<bar> \<le> log 2 \<bar>y\<bar>" by simp
  then have "\<lfloor>log 2 \<bar>x\<bar>\<rfloor> \<le> \<lfloor>log 2 \<bar>y\<bar>\<rfloor>" by (rule floor_mono)
  then show ?thesis by (simp add: binade_def)
qed

lemma powr_int_diff: "(2::real) powr (of_int a) / 2 powr (of_int b) = 2 powr (of_int (a - b))"
  by (simp add: powr_diff)

lemma powr_int_add: "(2::real) powr (of_int a) * 2 powr (of_int b) = 2 powr (of_int (a + b))"
  by (simp add: powr_add)

lemma powr_nonneg_int: "0 \<le> e \<Longrightarrow> (2::real) powr (of_int e) = of_int (2 ^ nat e)"
  by (simp add: powr_realpow [symmetric])

text \<open>Numbers with a 53-bit significand and an exponent in range are floats.\<close>

lemma round_double_fix:
  assumes m: "\<bar>m\<bar> < 2 ^ 53" and e: "- 1074 \<le> e"
  shows "round_double (of_int m * 2 powr (of_int e)) = of_int m * 2 powr (of_int e)"
proof (cases "m = 0")
  case True
  then show ?thesis by (simp add: round_double_def)
next
  case False
  define x where "x = of_int m * (2::real) powr (of_int e)"
  have nz: "x \<noteq> 0" using False by (simp add: x_def)
  define b where "b = binade x"
  have be: "b - 52 \<le> e"
  proof (cases "- 1022 < b")
    case True
    then have "2 powr (of_int b) \<le> \<bar>x\<bar>" using binade_lower [OF nz] by (simp add: b_def)
    also have "\<bar>x\<bar> = of_int \<bar>m\<bar> * 2 powr (of_int e)" by (simp add: x_def abs_mult)
    also have "\<dots> < 2 ^ 53 * 2 powr (of_int e)"
    proof -
      have "(of_int \<bar>m\<bar> :: real) < of_int (2 ^ 53)" using m by (simp only: of_int_less_iff)
      then show ?thesis by simp
    qed
    also have "\<dots> = 2 powr (of_int (53 + e))"
      by (simp add: powr_add powr_realpow [symmetric])
    finally have "of_int b < (of_int (53 + e) :: real)" by simp
    then show ?thesis by simp
  next
    case False
    then have "b = - 1022" using binade_ge [of x] by (simp add: b_def)
    then show ?thesis using e by simp
  qed
  have "x / ulp x = of_int m * (2 powr (of_int e) / 2 powr (of_int (b - 52)))"
    by (simp add: x_def ulp_def b_def)
  also have "\<dots> = of_int m * 2 powr (of_int (e - (b - 52)))"
    by (simp only: powr_int_diff)
  also have "\<dots> = of_int m * of_int (2 ^ nat (e - (b - 52)))"
    using be by (subst powr_nonneg_int) simp_all
  also have "\<dots> = of_int (m * 2 ^ nat (e - (b - 52)))"
    by (simp only: of_int_mult)
  finally have q: "x / ulp x = of_int (m * 2 ^ nat (e - (b - 52)))" .
  have "round_double x = of_int (round_half_even (x / ulp x)) * ulp x"
    using nz by (simp add: round_double_def)
  also have "\<dots> = (x / ulp x) * ulp x" by (simp only: q rhe_of_int)
  also have "\<dots> = x" using ulp_pos [of x] by simp
  finally show ?thesis by (simp add: x_def)
qed

lemma round_double_of_int: "\<bar>m\<bar> < 2 ^ 53 \<Longrightarrow> round_double (of_int m) = of_int m"
  using round_double_fix [of m 0] by simp

lemma rd_upper: 
  assumes "0 < x" 
  shows "round_double x \<le> 2 powr (of_int (binade x + 1))"
proof -
  have nz: "x \<noteq> 0" using assms by simp
  have "x < 2 powr (of_int (binade x + 1))" using binade_upper [OF nz] assms by simp
  then have "x / ulp x \<le> 2 powr (of_int (binade x + 1)) / ulp x"
    using ulp_pos [of x] by (simp add: divide_right_mono)
  also have "\<dots> = 2 powr (of_int 53)"
    unfolding ulp_def powr_int_diff by simp
  also have "\<dots> = of_int (2 ^ 53)" by (simp add: powr_nonneg_int)
  finally have "round_half_even (x / ulp x) \<le> round_half_even (of_int (2 ^ 53))"
    by (rule rhe_mono)
  then have "round_half_even (x / ulp x) \<le> 2 ^ 53" by (simp only: rhe_of_int)
  then have "(of_int (round_half_even (x / ulp x)) :: real) \<le> of_int (2 ^ 53)"
    by (simp only: of_int_le_iff)
  then have "of_int (round_half_even (x / ulp x)) * ulp x \<le> of_int (2 ^ 53) * ulp x"
    using ulp_pos [of x] by (simp only: mult_le_cancel_right_pos)
  also have "of_int (2 ^ 53) * ulp x = 2 powr (of_int 53) * 2 powr (of_int (binade x - 52))"
    by (simp add: powr_nonneg_int ulp_def)
  also have "\<dots> = 2 powr (of_int (53 + (binade x - 52)))" by (simp only: powr_int_add)
  also have "53 + (binade x - 52) = binade x + 1" by simp
  finally show ?thesis using nz by (simp add: round_double_def)
qed

lemma rd_lower:
  assumes "0 < x" and "- 1022 < binade x"
  shows "2 powr (of_int (binade x)) \<le> round_double x"
proof -
  have nz: "x \<noteq> 0" using assms by simp
  have "2 powr (of_int (binade x)) \<le> x" using binade_lower [OF nz assms(2)] assms(1) by simp
  then have "2 powr (of_int (binade x)) / ulp x \<le> x / ulp x"
    using ulp_pos [of x] by (simp add: divide_right_mono)
  moreover have "2 powr (of_int (binade x)) / ulp x = 2 powr (of_int 52)"
    unfolding ulp_def powr_int_diff by simp
  moreover have "2 powr (of_int 52) = (of_int (2 ^ 52) :: real)" by (simp add: powr_nonneg_int)
  ultimately have "round_half_even (of_int (2 ^ 52)) \<le> round_half_even (x / ulp x)"
    by (simp only: rhe_mono)
  then have "2 ^ 52 \<le> round_half_even (x / ulp x)" by (simp only: rhe_of_int)
  then have "(of_int (2 ^ 52) :: real) \<le> of_int (round_half_even (x / ulp x))"
    by (simp only: of_int_le_iff)
  then have "of_int (2 ^ 52) * ulp x \<le> of_int (round_half_even (x / ulp x)) * ulp x"
    using ulp_pos [of x] by (simp only: mult_le_cancel_right_pos)
  moreover have "of_int (2 ^ 52) * ulp x = 2 powr (of_int 52) * 2 powr (of_int (binade x - 52))"
    by (simp add: powr_nonneg_int ulp_def)
  moreover have "(2::real) powr (of_int 52) * 2 powr (of_int (binade x - 52)) = 2 powr (of_int (52 + (binade x - 52)))"
    by (simp only: powr_int_add)
  moreover have "52 + (binade x - 52) = binade x" by simp
  ultimately show ?thesis using nz by (simp add: round_double_def)
qed

lemma round_double_mono_pos:
  assumes "0 < x" and "x \<le> y"
  shows "round_double x \<le> round_double y"
proof -
  have ypos: "0 < y" using assms by simp
  have le: "binade x \<le> binade y" using assms by (rule binade_mono)
  show ?thesis
  proof (cases "binade x = binade y")
    case True
    then have u: "ulp x = ulp y" by (simp add: ulp_def)
    have "x / ulp y \<le> y / ulp y" using assms ulp_pos [of y] by (simp add: divide_right_mono)
    then have "round_half_even (x / ulp y) \<le> round_half_even (y / ulp y)" by (rule rhe_mono)
    then have "of_int (round_half_even (x / ulp y)) * ulp y \<le> of_int (round_half_even (y / ulp y)) * ulp y"
      using ulp_pos [of y] by (simp only: mult_le_cancel_right_pos of_int_le_iff)
    then show ?thesis using assms ypos by (simp add: round_double_def u)
  next
    case False
    with le have lt: "binade x + 1 \<le> binade y" by simp
    then have "- 1022 < binade y" using binade_ge [of x] by linarith
    then have "2 powr (of_int (binade y)) \<le> round_double y" using ypos by (simp add: rd_lower)
    moreover have "round_double x \<le> 2 powr (of_int (binade x + 1))" using assms(1) by (rule rd_upper)
    moreover have "(2::real) powr (of_int (binade x + 1)) \<le> 2 powr (of_int (binade y))"
      using lt by simp
    ultimately show ?thesis by linarith
  qed
qed

lemma round_double_mono: "x \<le> y \<Longrightarrow> round_double x \<le> round_double y"
proof -
  assume xy: "x \<le> y"
  consider "0 < x" | "y < 0" | "x \<le> 0" "0 \<le> y" by linarith
  then show ?thesis
  proof cases
    case 1
    then show ?thesis using xy by (rule round_double_mono_pos)
  next
    case 2
    then have "round_double (- y) \<le> round_double (- x)" using xy by (intro round_double_mono_pos) simp_all
    then show ?thesis by (simp add: round_double_minus)
  next
    case 3
    have "0 \<le> round_double y" using 3(2) by (rule round_double_nonneg)
    moreover have "0 \<le> round_double (- x)" using 3(1) by (intro round_double_nonneg) simp
    ultimately show ?thesis by (simp add: round_double_minus)
  qed
qed

lemma round_double_dyadic:
  assumes "\<bar>m\<bar> < 2 ^ 53" and "k \<le> 1074"
  shows "round_double (of_int m / 2 ^ k) = of_int m / 2 ^ k"
proof -
  have "(2::real) powr (of_int (- int k)) = 1 / 2 ^ k"
    by (simp add: powr_minus powr_realpow divide_inverse)
  then have "of_int m / 2 ^ k = of_int m * (2::real) powr (of_int (- int k))" by simp
  moreover have "round_double (of_int m * 2 powr (of_int (- int k))) = of_int m * 2 powr (of_int (- int k))"
    using assms by (intro round_double_fix) simp_all
  ultimately show ?thesis by simp
qed

lemma round_double_between:
  assumes "round_double a = a" and "round_double b = b" and "a \<le> x" and "x \<le> b"
  shows "a \<le> round_double x \<and> round_double x \<le> b"
  using round_double_mono [OF assms(3)] round_double_mono [OF assms(4)] assms(1,2) by simp

lemma rd_17_4: "round_double (17 / 4) = 17 / 4"
  using round_double_dyadic [of 17 2] by simp

lemma rd_69_16: "round_double (69 / 16) = 69 / 16"
  using round_double_dyadic [of 69 4] by simp

lemma lit_4_3_bounds: "17 / 4 \<le> round_double (43 / 10) \<and> round_double (43 / 10) \<le> 69 / 16"
  by (rule round_double_between [OF rd_17_4 rd_69_16]) simp_all

lemma rd_numeral: "round_double 3 = 3" "round_double 1 = 1" "round_double 2 = 2"
  using round_double_of_int [of 3] round_double_of_int [of 1] round_double_of_int [of 2] by simp_all

lemma float_of_int_small: "\<bar>n\<bar> < 2 ^ 53 \<Longrightarrow> float_of_int n = Inr (of_int n)"
proof -
  assume a: "\<bar>n\<bar> < 2 ^ 53"
  then have "(of_int \<bar>n\<bar> :: real) < of_int (2 ^ 53)" by (simp only: of_int_less_iff)
  then have "\<bar>of_int n :: real\<bar> < 2 ^ 1024" by simp
  then show ?thesis using a by (simp add: float_of_int_def round_double_of_int)
qed

lemma default_num_clauses_0: "default_num_clauses 0 = Inr 0"
  using float_of_int_small [of 0]
  by (simp add: default_num_clauses_def float_mul_def round_double_zero int_of_float_def)

lemma default_num_clauses_3: "default_num_clauses 3 = Inr 12"
proof -
  let ?c = "round_double (43 / 10)"
  have f: "float_of_int 3 = Inr 3" using float_of_int_small [of 3] by simp
  have a: "round_double (51 / 4) = 51 / 4" using round_double_dyadic [of 51 2] by simp
  have b: "round_double (207 / 16) = 207 / 16" using round_double_dyadic [of 207 4] by simp
  have "51 / 4 \<le> ?c * 3" "?c * 3 \<le> 207 / 16" using lit_4_3_bounds by simp_all
  then have r: "51 / 4 \<le> round_double (?c * 3) \<and> round_double (?c * 3) \<le> 207 / 16"
    by (rule round_double_between [OF a b])
  then have "\<lfloor>round_double (?c * 3)\<rfloor> = 12" by linarith
  moreover have "\<bar>round_double (?c * 3)\<bar> < 2 ^ 1024" using r by simp
  ultimately show ?thesis using r by (simp add: default_num_clauses_def f float_mul_def int_of_float_def)
qed

subsection \<open>The default clause count\<close>

lemma default_num_clauses_1: "default_num_clauses 1 = Inr 4"
proof -
  let ?c = "round_double (43 / 10)"
  have f: "float_of_int 1 = Inr 1" using float_of_int_small [of 1] by simp
  have "17 / 4 \<le> ?c * 1" "?c * 1 \<le> 69 / 16" using lit_4_3_bounds by simp_all
  then have r: "17 / 4 \<le> round_double (?c * 1) \<and> round_double (?c * 1) \<le> 69 / 16"
    by (rule round_double_between [OF rd_17_4 rd_69_16])
  then have "\<lfloor>round_double (?c * 1)\<rfloor> = 4" by linarith
  moreover have "\<bar>round_double (?c * 1)\<bar> < 2 ^ 1024" using r by simp
  ultimately show ?thesis using r by (simp add: default_num_clauses_def f float_mul_def int_of_float_def)
qed

lemma default_num_clauses_2: "default_num_clauses 2 = Inr 8"
proof -
  let ?c = "round_double (43 / 10)"
  have f: "float_of_int 2 = Inr 2" using float_of_int_small [of 2] by simp
  have a: "round_double (17 / 2) = 17 / 2" using round_double_dyadic [of 17 1] by simp
  have b: "round_double (69 / 8) = 69 / 8" using round_double_dyadic [of 69 3] by simp
  have "17 / 2 \<le> ?c * 2" "?c * 2 \<le> 69 / 8" using lit_4_3_bounds by simp_all
  then have r: "17 / 2 \<le> round_double (?c * 2) \<and> round_double (?c * 2) \<le> 69 / 8"
    by (rule round_double_between [OF a b])
  then have "\<lfloor>round_double (?c * 2)\<rfloor> = 8" by linarith
  moreover have "\<bar>round_double (?c * 2)\<bar> < 2 ^ 1024" using r by simp
  ultimately show ?thesis using r by (simp add: default_num_clauses_def f float_mul_def int_of_float_def)
qed

lemma default_num_clauses_nonneg:
  assumes "default_num_clauses n = Inr nc" and "0 \<le> n"
  shows "0 \<le> nc"
proof -
  have c: "0 \<le> round_double (43 / 10)" by (intro round_double_nonneg) simp
  have f: "0 \<le> round_double (of_int n)" using assms(2) by (intro round_double_nonneg) simp
  have "0 \<le> round_double (round_double (43 / 10) * round_double (of_int n))"
    using c f by (intro round_double_nonneg) simp
  then show ?thesis using assms(1)
    by (auto simp: default_num_clauses_def float_of_int_def float_mul_def int_of_float_def Let_def
             split: if_splits)
qed

lemma default_num_clauses_nonpos:
  assumes "default_num_clauses n = Inr nc" and "n \<le> 0"
  shows "nc \<le> 0"
proof -
  have c: "0 \<le> round_double (43 / 10)" by (intro round_double_nonneg) simp
  have "0 \<le> round_double (of_int (- n))" using assms(2) by (intro round_double_nonneg) simp
  then have f: "0 \<le> - round_double (of_int n)" by (simp add: round_double_minus)
  have "0 \<le> round_double (43 / 10) * (- round_double (of_int n))"
    using c f by (rule mult_nonneg_nonneg)
  then have "0 \<le> round_double (round_double (43 / 10) * (- round_double (of_int n)))"
    by (rule round_double_nonneg)
  then have "round_double (round_double (43 / 10) * round_double (of_int n)) \<le> 0"
    by (simp add: round_double_minus)
  then show ?thesis using assms(1)
    by (auto simp: default_num_clauses_def float_of_int_def float_mul_def int_of_float_def Let_def
             split: if_splits)
qed

subsection \<open>Sampling and clause generation\<close>

lemma randbelow_less: "0 < n \<Longrightarrow> fst (randbelow n g) < n"
  by (simp add: randbelow_def split: list.splits)

lemma pool_remove:
  assumes "distinct pool" and "j < length pool"
  shows "distinct (butlast (pool[j := last pool])) \<and>
         set (butlast (pool[j := last pool])) = set pool - {pool ! j} \<and>
         length (butlast (pool[j := last pool])) = length pool - 1"
proof -
  from assms(2) have ne: "pool \<noteq> []" by auto
  then obtain ys y where p: "pool = ys @ [y]" by (metis rev_exhaust)
  show ?thesis
  proof (cases "j = length ys")
    case True
    then show ?thesis using assms by (simp add: p)
  next
    case False
    then have j: "j < length ys" using assms(2) by (simp add: p)
    have "butlast (pool[j := last pool]) = ys[j := y]"
      using j by (simp add: p list_update_append1)
    moreover have "distinct (ys[j := y])" using assms(1) j
      by (simp add: p distinct_list_update)
    moreover have "set (ys[j := y]) = set pool - {pool ! j}"
      using assms(1) j by (auto simp: p nth_append set_update_distinct nth_eq_iff_index_eq)
    ultimately show ?thesis using j by (simp add: p)
  qed
qed

lemma sample_pool_props:
  "k \<le> length pool \<Longrightarrow> distinct pool \<Longrightarrow> sample_pool pool k g = (xs, g') \<Longrightarrow>
   length xs = k \<and> distinct xs \<and> set xs \<subseteq> set pool"
proof (induction k arbitrary: pool g xs g')
  case 0
  then show ?case by simp
next
  case (Suc k)
  obtain j g1 where rb: "randbelow (length pool) g = (j, g1)" by (cases "randbelow (length pool) g")
  have lp: "0 < length pool" using Suc.prems(1) by (cases pool) simp_all
  have j: "j < length pool" using randbelow_less [OF lp, of g] by (simp add: rb)
  let ?pool' = "butlast (pool[j := last pool])"
  obtain rest g2 where sp: "sample_pool ?pool' k g1 = (rest, g2)"
    by (cases "sample_pool ?pool' k g1")
  have xs: "xs = pool ! j # rest" using Suc.prems(3) by (simp add: rb sp)
  have rem: "distinct ?pool'" "set ?pool' = set pool - {pool ! j}" "length ?pool' = length pool - 1"
    using pool_remove [OF Suc.prems(2) j] by simp_all
  have "k \<le> length ?pool'" using Suc.prems(1) rem(3) by simp
  from Suc.IH [OF this rem(1) sp]
  have ih: "length rest = k" "distinct rest" "set rest \<subseteq> set ?pool'" by simp_all
  show ?case using ih rem(2) j by (auto simp: xs)
qed

lemma negate_literals_fst: "negate_literals sel g = (c, g') \<Longrightarrow> map fst c = sel"
proof (induction sel arbitrary: g c g')
  case Nil
  then show ?case by simp
next
  case (Cons v sel)
  then show ?case by (auto split: prod.splits)
qed

lemma py_range_props: "distinct (py_range n)" "length (py_range n) = nat n"
  "set (py_range n) = {i. 0 \<le> i \<and> i < n}"
proof -
  show "distinct (py_range n)" by (simp add: py_range_def distinct_map inj_on_def)
  show "length (py_range n) = nat n" by (simp add: py_range_def)
  show "set (py_range n) = {i. 0 \<le> i \<and> i < n}"
  proof (rule set_eqI)
    fix i
    show "i \<in> set (py_range n) \<longleftrightarrow> i \<in> {i. 0 \<le> i \<and> i < n}"
    proof
      assume "i \<in> set (py_range n)"
      then show "i \<in> {i. 0 \<le> i \<and> i < n}" by (auto simp: py_range_def)
    next
      assume "i \<in> {i. 0 \<le> i \<and> i < n}"
      then have "nat i \<in> {0..<nat n}" "i = int (nat i)" by auto
      then show "i \<in> set (py_range n)" unfolding py_range_def by (metis image_eqI set_map set_upt)
    qed
  qed
qed

lemma generate_clauses_ok:
  "3 \<le> num_vars \<Longrightarrow>
   \<exists>cs g'. generate_clauses k num_vars g = Inr (cs, g') \<and> length cs = k \<and>
     (\<forall>c \<in> set cs. clause_ok num_vars c)"
proof (induction k arbitrary: g)
  case 0
  then show ?case by simp
next
  case (Suc k)
  obtain sel g1 where sp: "sample_pool (py_range num_vars) 3 g = (sel, g1)"
    by (cases "sample_pool (py_range num_vars) 3 g")
  have len: "3 \<le> length (py_range num_vars)" using Suc.prems by (simp add: py_range_props)
  have sel: "length sel = 3" "distinct sel" "set sel \<subseteq> set (py_range num_vars)"
    using sample_pool_props [OF len py_range_props(1) sp] by simp_all
  have rs: "random_sample (py_range num_vars) 3 g = Inr (sel, g1)"
    using len by (simp add: random_sample_def sp)
  obtain c g2 where nl: "negate_literals sel g1 = (c, g2)" by (cases "negate_literals sel g1")
  have fst: "map fst c = sel" using nl by (rule negate_literals_fst)
  have cok: "clause_ok num_vars c"
  proof -
    have "length c = 3" using fst sel(1) by (metis length_map)
    moreover have "distinct (map fst c)" using fst sel(2) by simp
    moreover have "\<forall>l \<in> set c. 0 \<le> fst l \<and> fst l < num_vars"
    proof
      fix l assume "l \<in> set c"
      then have "fst l \<in> set sel" using fst by (metis image_eqI set_map)
      then show "0 \<le> fst l \<and> fst l < num_vars" using sel(3) by (auto simp: py_range_props)
    qed
    ultimately show ?thesis by (simp add: clause_ok_def)
  qed
  from Suc.IH [OF Suc.prems, of g2] obtain cs g3 where
    ih: "generate_clauses k num_vars g2 = Inr (cs, g3)" "length cs = k"
        "\<forall>c \<in> set cs. clause_ok num_vars c" by blast
  show ?case using ih cok by (simp add: rs nl)
qed

lemma generate_clauses_raises:
  "num_vars < 3 \<Longrightarrow> generate_clauses (Suc k) num_vars g = Inl ValueError"
proof -
  assume "num_vars < 3"
  then have "length (py_range num_vars) < 3" by (simp add: py_range_props)
  then have "random_sample (py_range num_vars) 3 g = Inl ValueError"
    by (simp add: random_sample_def)
  then show ?thesis by simp
qed

subsection \<open>verify\_assignment\<close>

lemma py_index_in_range:
  "0 \<le> i \<Longrightarrow> i < int (length xs) \<Longrightarrow> py_index xs i = Inr (xs ! nat i)"
  by (simp add: py_index_def)

lemma clause_satisfied_spec:
  "\<forall>l \<in> set c. 0 \<le> fst l \<and> fst l < int (length vars) \<Longrightarrow>
   clause_satisfied vars a c = Inr (\<exists>l \<in> set c. literal_holds vars a l)"
proof (induction c)
  case Nil
  then show ?case by simp
next
  case (Cons l c)
  obtain i neg where l: "l = (i, neg)" by (cases l)
  from Cons.prems have r: "0 \<le> i" "i < int (length vars)"
    and rest: "\<forall>l \<in> set c. 0 \<le> fst l \<and> fst l < int (length vars)"
    by (simp_all add: l)
  show ?case
    using Cons.IH [OF rest] r
    by (auto simp: l py_index_in_range literal_holds_def Let_def split: option.splits)
qed

lemma verify_clauses_spec:
  "\<forall>c \<in> set cs. \<forall>l \<in> set c. 0 \<le> fst l \<and> fst l < int (length vars) \<Longrightarrow>
   verify_clauses vars a cs = Inr (\<forall>c \<in> set cs. \<exists>l \<in> set c. literal_holds vars a l)"
proof (induction cs)
  case Nil
  then show ?case by simp
next
  case (Cons c cs)
  then show ?case by (simp add: clause_satisfied_spec)
qed

text \<open>
  Claim C3. For every instance the benchmark holds and every assignment,
  \<open>verify_assignment\<close> returns a boolean (it does not raise), and the boolean is True
  exactly when every clause contains a literal made true by the assignment, a variable
  absent from the assignment being read as False.
\<close>

theorem verify_assignment_correct:
  "instance_ok b \<Longrightarrow>
   verify_assignment b a =
     Inr (\<forall>c \<in> set (clauses b). \<exists>l \<in> set c. literal_holds (variables b) a l)"
  unfolding verify_assignment_def instance_ok_def by (rule verify_clauses_spec)

theorem verify_assignment_correct_witness:
  "instance_ok sat_scenario \<and>
   verify_assignment sat_scenario [''x0'' \<mapsto> False, ''x1'' \<mapsto> False] = Inr True \<and>
   verify_assignment sat_scenario [''x1'' \<mapsto> True] = Inr False"
  using verify_assignment_correct [of sat_scenario "[''x0'' \<mapsto> False, ''x1'' \<mapsto> False]"]
    verify_assignment_correct [of sat_scenario "[''x1'' \<mapsto> True]"]
  by (simp add: instance_ok_def sat_scenario_def literal_holds_def)

subsection \<open>Decoding\<close>

lemma assign_variables_dom:
  "assign_variables vars a g = (a', g') \<Longrightarrow> dom a' = dom a \<union> set vars"
proof (induction vars arbitrary: a g)
  case Nil
  then show ?case by simp
next
  case (Cons v vars)
  then show ?case by (auto split: prod.splits)
qed

lemma extract_assignment_dom:
  "extract_assignment b r g = (a, g') \<Longrightarrow> dom a = set (variables b)"
  using assign_variables_dom [of "variables b" Map.empty g a g']
  by (simp add: extract_assignment_def)

lemma random_choice_bool:
  "random_choice [True, False] g = (fst (randbelow 2 g) = 0, snd (randbelow 2 g))"
proof -
  obtain j g1 where rb: "randbelow 2 g = (j, g1)" by (cases "randbelow 2 g")
  have len: "length [True, False] = 2" by simp
  have "fst (randbelow 2 g) < 2" by (rule randbelow_less) simp
  then have "j = 0 \<or> j = 1" unfolding rb by auto
  then show ?thesis unfolding random_choice_def len rb by auto
qed

lemma run_two_variables_raises: "run execute_crn_string 2 g = Inl ValueError"
  using generate_clauses_raises [of 2 7 g]
  by (simp add: run_def generate_3sat_instance_def default_num_clauses_2 eval_nat_numeral)

text \<open>The report of \<open>run\<close> is made by the functions it calls: the assignment is the one
  \<open>extract_assignment\<close> decodes for the generated instance, and the flag is what
  \<open>verify_assignment\<close> returns for it.\<close>

lemma run_report:
  assumes "run execute_crn_string num_vars g = Inr (rep, g')"
  shows "\<exists>b g1 crn result.
           generate_3sat_instance num_vars None g = Inr (b, g1) \<and>
           create_sat_crn b = Inr crn \<and> execute_crn_string crn = Inr result \<and>
           extract_assignment b result g1 = (report_assignment rep, g') \<and>
           verify_assignment b (report_assignment rep) = Inr (satisfiable rep)"
proof -
  from assms obtain b g1 where gen: "generate_3sat_instance num_vars None g = Inr (b, g1)"
    by (cases "generate_3sat_instance num_vars None g") (auto simp: run_def)
  from assms gen obtain crn where crn: "create_sat_crn b = Inr crn"
    by (cases "create_sat_crn b") (auto simp: run_def)
  from assms gen crn obtain result where res: "execute_crn_string crn = Inr result"
    by (cases "execute_crn_string crn") (auto simp: run_def)
  obtain a g2 where ex: "extract_assignment b result g1 = (a, g2)"
    by (cases "extract_assignment b result g1")
  from assms gen crn res ex obtain v where ver: "verify_assignment b a = Inr v"
    by (cases "verify_assignment b a") (auto simp: run_def)
  have "rep = \<lparr>report_variables = num_vars, report_clauses = length (clauses b),
      satisfiable = v, report_assignment = a,
      execution_steps = (case result ''steps'' of None \<Rightarrow> 0 | Some s \<Rightarrow> s)\<rparr>" and "g' = g2"
    using assms by (simp_all add: run_def gen crn res ex ver)
  then show ?thesis using gen crn res ex ver by simp
qed

text \<open>
  Claim C1, as the code has it. \<open>SATBenchmark.run\<close> cannot hold the instance of the
  scenario: with two variables it raises \<open>ValueError\<close> while generating, because three
  distinct variables cannot be sampled. For the instance stored in the benchmark,
  variables \<open>x0, x1\<close> and the clause \<open>x0 \<or> \<not> x1\<close>, \<open>create_sat_crn\<close> returns the text
  below, and whatever the simulation result \<open>extract_assignment\<close> decodes \<open>x0\<close> from the
  next random draw and \<open>x1\<close> from the one after it (True when the draw selects index 0 of
  \<open>[True, False]\<close>). \<open>verify_assignment\<close> returns True for the decoded assignment in
  every execution except those whose draws decode \<open>x0\<close> False and \<open>x1\<close> True, where it
  returns False.
\<close>

theorem scenario_decoding:
  "create_sat_crn sat_scenario =
     Inr (unlines
       [''-- 3-SAT Chemical Reaction Network'',
        ''-- Variables represented as molecular species (TRUE/FALSE states)'',
        ''-- Clauses as reactions that must be satisfied'',
        '''',
        ''x0_false -> x0_true, rate=1.0'',
        ''x0_true -> x0_false, rate=1.0'',
        ''x1_false -> x1_true, rate=1.0'',
        ''x1_true -> x1_false, rate=1.0'',
        '''',
        ''-- Clause satisfaction reactions'',
        ''-- Clause 1: [(0, False), (1, True)]'',
        ''x0_true -> clause_0_satisfied, rate=10.0'',
        ''x1_false -> clause_0_satisfied, rate=10.0'']) \<and>
   extract_assignment sat_scenario result g =
     ([''x0'' \<mapsto> fst (randbelow 2 g) = 0,
       ''x1'' \<mapsto> fst (randbelow 2 (snd (randbelow 2 g))) = 0],
      snd (randbelow 2 (snd (randbelow 2 g)))) \<and>
   verify_assignment sat_scenario (fst (extract_assignment sat_scenario result g)) =
     Inr (fst (randbelow 2 g) = 0 \<or> fst (randbelow 2 (snd (randbelow 2 g))) \<noteq> 0) \<and>
   run execute_crn_string 2 g = Inl ValueError"
proof (intro conjI)
  show "create_sat_crn sat_scenario =
     Inr (unlines
       [''-- 3-SAT Chemical Reaction Network'',
        ''-- Variables represented as molecular species (TRUE/FALSE states)'',
        ''-- Clauses as reactions that must be satisfied'',
        '''',
        ''x0_false -> x0_true, rate=1.0'',
        ''x0_true -> x0_false, rate=1.0'',
        ''x1_false -> x1_true, rate=1.0'',
        ''x1_true -> x1_false, rate=1.0'',
        '''',
        ''-- Clause satisfaction reactions'',
        ''-- Clause 1: [(0, False), (1, True)]'',
        ''x0_true -> clause_0_satisfied, rate=10.0'',
        ''x1_false -> clause_0_satisfied, rate=10.0''])"
    by (simp add: create_sat_crn_def sat_scenario_def py_index_def sat_header_def
          variable_reactions_def clause_block_def clause_reaction_def repr_clause_def
          repr_literal_def str_int_def str_nat.simps digit_char_def unlines_def)
  show ex: "extract_assignment sat_scenario result g =
     ([''x0'' \<mapsto> fst (randbelow 2 g) = 0,
       ''x1'' \<mapsto> fst (randbelow 2 (snd (randbelow 2 g))) = 0],
      snd (randbelow 2 (snd (randbelow 2 g))))"
    by (simp add: extract_assignment_def sat_scenario_def random_choice_bool)
  show "verify_assignment sat_scenario (fst (extract_assignment sat_scenario result g)) =
     Inr (fst (randbelow 2 g) = 0 \<or> fst (randbelow 2 (snd (randbelow 2 g))) \<noteq> 0)"
    unfolding ex by (simp add: verify_assignment_def sat_scenario_def py_index_def)
  show "run execute_crn_string 2 g = Inl ValueError" by (rule run_two_variables_raises)
qed

theorem scenario_decoding_witness:
  "extract_assignment sat_scenario Map.empty [0, 3] =
     ([''x0'' \<mapsto> True, ''x1'' \<mapsto> False], []) \<and>
   verify_assignment sat_scenario (fst (extract_assignment sat_scenario Map.empty [0, 3])) = Inr True \<and>
   verify_assignment sat_scenario (fst (extract_assignment sat_scenario Map.empty [5, 7])) = Inr True \<and>
   verify_assignment sat_scenario (fst (extract_assignment sat_scenario Map.empty [4, 8])) = Inr True \<and>
   run idle_engine 2 [0, 3] = Inl ValueError"
proof -
  have r: "randbelow 2 [0, 3] = (0, [3])" "randbelow 2 [3] = (1, [])"
    "randbelow 2 [5, 7] = (1, [7])" "randbelow 2 [7] = (1, [])"
    "randbelow 2 [4, 8] = (0, [8])" "randbelow 2 [8] = (0, [])"
    by (simp_all add: randbelow_def)
  note a = scenario_decoding [of Map.empty "[0, 3]" idle_engine]
  note b = scenario_decoding [of Map.empty "[5, 7]" idle_engine]
  note c = scenario_decoding [of Map.empty "[4, 8]" idle_engine]
  have "extract_assignment sat_scenario Map.empty [0, 3] =
     ([''x0'' \<mapsto> True, ''x1'' \<mapsto> False], [])"
    using a [THEN conjunct2, THEN conjunct1] by (simp add: r)
  moreover have
    "verify_assignment sat_scenario (fst (extract_assignment sat_scenario Map.empty [0, 3])) = Inr True"
    using a [THEN conjunct2, THEN conjunct2, THEN conjunct1] by (simp add: r)
  moreover have
    "verify_assignment sat_scenario (fst (extract_assignment sat_scenario Map.empty [5, 7])) = Inr True"
    using b [THEN conjunct2, THEN conjunct2, THEN conjunct1] by (simp add: r)
  moreover have
    "verify_assignment sat_scenario (fst (extract_assignment sat_scenario Map.empty [4, 8])) = Inr True"
    using c [THEN conjunct2, THEN conjunct2, THEN conjunct1] by (simp add: r)
  moreover have "run idle_engine 2 [0, 3] = Inl ValueError"
    using a [THEN conjunct2, THEN conjunct2, THEN conjunct2] .
  ultimately show ?thesis by blast
qed

theorem scenario_decoding_counterexample:
  "verify_assignment sat_scenario (fst (extract_assignment sat_scenario Map.empty [1, 0])) =
     Inr False \<and>
   run idle_engine 2 [1, 0] = Inl ValueError"
  by (simp add: extract_assignment_def sat_scenario_def random_choice_def randbelow_def
        verify_assignment_def py_index_def run_two_variables_raises)

text \<open>
  Claim C2, as the code has it. \<open>extract_best_path\<close> is deterministic: it returns the
  cities in declaration order, \<open>0, 1, \<dots>, n - 1\<close>, whatever the simulation result.
  \<open>extract_assignment\<close> does not read the simulation result either: its value is fixed by
  the variables and the random draws, so it is the same for any two simulation results
  under the same draws, and a second call, which continues the draws, may differ from the
  first. No species count is compared and no warning is returned with the value.
\<close>

theorem decoding_ignores_result:
  "extract_best_path t r1 = extract_best_path t r2 \<and>
   extract_best_path t r1 = [0..<length (cities t)] \<and>
   extract_assignment b r1 g = extract_assignment b r2 g"
  by (simp add: extract_best_path_def extract_assignment_def)

theorem extract_assignment_counterexample:
  "fst (extract_assignment sat_scenario Map.empty [0, 0, 1, 0]) \<noteq>
   fst (extract_assignment sat_scenario Map.empty
          (snd (extract_assignment sat_scenario Map.empty [0, 0, 1, 0])))"
proof -
  have "fst (extract_assignment sat_scenario Map.empty [0, 0, 1, 0]) ''x0'' = Some True"
    by (simp add: extract_assignment_def sat_scenario_def random_choice_def randbelow_def)
  moreover have "fst (extract_assignment sat_scenario Map.empty
          (snd (extract_assignment sat_scenario Map.empty [0, 0, 1, 0]))) ''x0'' = Some False"
    by (simp add: extract_assignment_def sat_scenario_def random_choice_def randbelow_def)
  ultimately show ?thesis by (metis option.inject)
qed

subsection \<open>Instance generation\<close>

lemma default_num_clauses_defined:
  assumes "\<bar>n\<bar> < 2 ^ 53"
  shows "\<exists>nc. default_num_clauses n = Inr nc"
proof -
  let ?c = "round_double (43 / 10)"
  have f: "float_of_int n = Inr (of_int n)" using assms by (rule float_of_int_small)
  have "(of_int \<bar>n\<bar> :: real) < of_int (2 ^ 53)" using assms by (simp only: of_int_less_iff)
  then have n: "\<bar>of_int n :: real\<bar> \<le> 2 ^ 53" by simp
  have c: "0 \<le> ?c" "?c \<le> 8" using lit_4_3_bounds by simp_all
  have "\<bar>?c * of_int n\<bar> = ?c * \<bar>of_int n\<bar>" using c(1) by (simp add: abs_mult)
  also have "\<dots> \<le> 8 * 2 ^ 53" using c n by (intro mult_mono) simp_all
  finally have b: "\<bar>?c * of_int n\<bar> \<le> 2 ^ 56" by simp
  have p56: "round_double (2 ^ 56) = 2 ^ 56"
    using round_double_fix [of 1 56] by (simp add: powr_realpow [symmetric])
  have "round_double (?c * of_int n) \<le> 2 ^ 56"
    using round_double_mono [of "?c * of_int n" "2 ^ 56"] b p56 by simp
  moreover have "- (2 ^ 56) \<le> round_double (?c * of_int n)"
    using round_double_mono [of "- (2 ^ 56)" "?c * of_int n"] b p56
    by (simp add: round_double_minus)
  ultimately have "\<bar>round_double (?c * of_int n)\<bar> \<le> 2 ^ 56" by simp
  moreover have "(2::real) ^ 56 < 2 ^ 1024" by simp
  ultimately have "\<bar>round_double (?c * of_int n)\<bar> < 2 ^ 1024" by linarith
  then show ?thesis by (simp add: default_num_clauses_def f float_mul_def int_of_float_def)
qed

text \<open>
  Claim C10, as the code has it. With the default clause count,
  \<open>generate_3sat_instance(num_vars)\<close> raises \<open>ValueError\<close> for \<open>num_vars\<close> 1 and 2, where
  a clause is sampled from fewer than three variables. For \<open>num_vars \<le> 0\<close> the clause
  count \<open>int(4.3 * num_vars)\<close> is not positive, no clause is sampled, and the call
  succeeds with no variables and no clauses. For \<open>num_vars \<ge> 3\<close> the call succeeds and
  produces exactly \<open>int(4.3 * num_vars)\<close> clauses, each of three literals whose variable
  indices are pairwise distinct and lie in \<open>range(num_vars)\<close>. (In the last two cases
  the float product \<open>4.3 * num_vars\<close> must not overflow.)
\<close>

theorem generate_3sat_instance_cases:
  "(num_vars = 1 \<or> num_vars = 2 \<longrightarrow> generate_3sat_instance num_vars None g = Inl ValueError) \<and>
   (num_vars \<le> 0 \<and> default_num_clauses num_vars = Inr nc \<longrightarrow>
      generate_3sat_instance num_vars None g = Inr (\<lparr>variables = [], clauses = []\<rparr>, g)) \<and>
   (3 \<le> num_vars \<and> default_num_clauses num_vars = Inr nc \<longrightarrow>
      (\<exists>b g'. generate_3sat_instance num_vars None g = Inr (b, g') \<and>
         int (length (clauses b)) = nc \<and> (\<forall>c \<in> set (clauses b). clause_ok num_vars c)))"
proof (intro conjI impI)
  assume "num_vars = 1 \<or> num_vars = 2"
  then show "generate_3sat_instance num_vars None g = Inl ValueError"
  proof
    assume "num_vars = 1"
    then show ?thesis
      using generate_clauses_raises [of 1 3 g]
      by (simp add: generate_3sat_instance_def default_num_clauses_1 eval_nat_numeral)
  next
    assume "num_vars = 2"
    then show ?thesis
      using generate_clauses_raises [of 2 7 g]
      by (simp add: generate_3sat_instance_def default_num_clauses_2 eval_nat_numeral)
  qed
next
  assume a: "num_vars \<le> 0 \<and> default_num_clauses num_vars = Inr nc"
  then have "nc \<le> 0" using default_num_clauses_nonpos by blast
  then show "generate_3sat_instance num_vars None g = Inr (\<lparr>variables = [], clauses = []\<rparr>, g)"
    using a by (simp add: generate_3sat_instance_def py_range_def)
next
  assume a: "3 \<le> num_vars \<and> default_num_clauses num_vars = Inr nc"
  then have nn: "0 \<le> nc" using default_num_clauses_nonneg [of num_vars nc] by simp
  from a have "3 \<le> num_vars" by simp
  from generate_clauses_ok [OF this, of "nat nc" g] obtain cs g' where
    gc: "generate_clauses (nat nc) num_vars g = Inr (cs, g')" "length cs = nat nc"
        "\<forall>c \<in> set cs. clause_ok num_vars c" by blast
  let ?b = "\<lparr>variables = map (\<lambda>i. ''x'' @ str_int i) (py_range num_vars), clauses = cs\<rparr>"
  have "generate_3sat_instance num_vars None g = Inr (?b, g')"
    using a gc(1) by (simp add: generate_3sat_instance_def)
  moreover have "int (length (clauses ?b)) = nc" using gc(2) nn by simp
  moreover have "\<forall>c \<in> set (clauses ?b). clause_ok num_vars c" using gc(3) by simp
  ultimately show "\<exists>b g'. generate_3sat_instance num_vars None g = Inr (b, g') \<and>
         int (length (clauses b)) = nc \<and> (\<forall>c \<in> set (clauses b). clause_ok num_vars c)"
    by blast
qed

theorem generate_3sat_instance_cases_witness:
  "generate_3sat_instance 1 None [5, 1] = Inl ValueError \<and>
   generate_3sat_instance 2 None [5, 1] = Inl ValueError \<and>
   generate_3sat_instance (- 4) None [5, 1] = Inr (\<lparr>variables = [], clauses = []\<rparr>, [5, 1]) \<and>
   (\<exists>b g'. generate_3sat_instance 3 None [5, 1] = Inr (b, g') \<and>
      int (length (clauses b)) = 12 \<and> (\<forall>c \<in> set (clauses b). clause_ok 3 c))"
proof -
  have m: "\<exists>nc. default_num_clauses (- 4) = Inr nc"
  proof -
    have f: "float_of_int (- 4) = Inr (- 4)" using float_of_int_small [of "- 4"] by simp
    let ?p = "round_double (round_double (43 / 10) * 4)"
    have a: "round_double 17 = 17" using round_double_of_int [of 17] by simp
    have b: "round_double 18 = 18" using round_double_of_int [of 18] by simp
    have "17 \<le> round_double (43 / 10) * 4" "round_double (43 / 10) * 4 \<le> 18"
      using lit_4_3_bounds by simp_all
    then have "17 \<le> ?p \<and> ?p \<le> 18" by (rule round_double_between [OF a b])
    then have "\<bar>?p\<bar> < 2 ^ 1024" by simp
    moreover have "round_double (round_double (43 / 10) * (- 4)) = - ?p"
      using round_double_minus [of "round_double (43 / 10) * 4"] by simp
    ultimately show ?thesis
      by (simp add: default_num_clauses_def f float_mul_def int_of_float_def)
  qed
  then obtain nc where nc: "default_num_clauses (- 4) = Inr nc" by blast
  show ?thesis
    using generate_3sat_instance_cases [of 1 "[5, 1]" 0]
      generate_3sat_instance_cases [of 2 "[5, 1]" 0]
      generate_3sat_instance_cases [of "- 4" "[5, 1]" nc]
      generate_3sat_instance_cases [of 3 "[5, 1]" 12]
      nc default_num_clauses_3
    by simp
qed

theorem generate_3sat_instance_counterexample:
  "generate_3sat_instance 0 None [] = Inr (\<lparr>variables = [], clauses = []\<rparr>, [])"
  by (simp add: generate_3sat_instance_def default_num_clauses_0 py_range_def)

subsection \<open>The distance matrix\<close>

lemma float_sub_swap: "float_sub y x = - float_sub x y"
  using round_double_minus [of "x - y"] by (simp add: float_sub_def)

lemma float_square_minus: "float_square (- x) = float_square x"
  by (simp add: float_square_def)

lemma float_square_sub_swap: "float_square (float_sub y x) = float_square (float_sub x y)"
  by (simp only: float_sub_swap [of y x] float_square_minus)

lemma distance_sym: "distance c2 c1 = distance c1 c2"
  unfolding distance_def
  by (simp only: float_square_sub_swap [of "fst c2" "fst c1"]
        float_square_sub_swap [of "snd c2" "snd c1"] cong: sum.case_cong)

lemma distance_nonneg: "distance c1 c2 = Inr d \<Longrightarrow> 0 \<le> d"
  by (auto simp: distance_def math_sqrt_def round_double_nonneg split: sum.splits if_splits)

text \<open>The inner loop writes row \<open>i\<close> at the columns of \<open>js\<close> other than \<open>i\<close> and leaves
  the rest of the matrix as it was.\<close>

lemma fill_row_spec:
  assumes "fill_row cs i js m = Inr m'" and "i < length m"
    and "\<forall>j \<in> set js. j < length (m ! i)"
  shows "length m' = length m \<and> (\<forall>k < length m. length (m' ! k) = length (m ! k)) \<and>
         (\<forall>k < length m. \<forall>j < length (m ! k).
            (if k = i \<and> j \<in> set js \<and> j \<noteq> i then distance (cs ! i) (cs ! j) = Inr (m' ! k ! j)
             else m' ! k ! j = m ! k ! j))"
  using assms
proof (induction js arbitrary: m)
  case Nil
  then show ?case by simp
next
  case (Cons j js)
  show ?case
  proof (cases "i = j")
    case True
    then have "fill_row cs i js m = Inr m'" using Cons.prems(1) by simp
    from Cons.IH [OF this Cons.prems(2)] Cons.prems(3) True show ?thesis by auto
  next
    case False
    then obtain d where d: "distance (cs ! i) (cs ! j) = Inr d"
      and rec: "fill_row cs i js (m[i := (m ! i)[j := d]]) = Inr m'"
      using Cons.prems(1) by (auto split: sum.splits)
    let ?m1 = "m[i := (m ! i)[j := d]]"
    have l1: "i < length ?m1" using Cons.prems(2) by simp
    have r1: "\<forall>j \<in> set js. j < length (?m1 ! i)" using Cons.prems(2,3) by simp
    have jl: "j < length (m ! i)" using Cons.prems(3) by simp
    from Cons.IH [OF rec l1 r1]
    have ih: "length m' = length ?m1"
      "\<forall>k < length ?m1. length (m' ! k) = length (?m1 ! k)"
      "\<forall>k < length ?m1. \<forall>j' < length (?m1 ! k).
            (if k = i \<and> j' \<in> set js \<and> j' \<noteq> i then distance (cs ! i) (cs ! j') = Inr (m' ! k ! j')
             else m' ! k ! j' = ?m1 ! k ! j')"
      by simp_all
    have len: "length m' = length m" using ih(1) by simp
    have rows: "\<forall>k < length m. length (m' ! k) = length (m ! k)"
    proof (intro allI impI)
      fix k assume k: "k < length m"
      then have "length (m' ! k) = length (?m1 ! k)" using ih(2) by simp
      also have "\<dots> = length (m ! k)" using k by (cases "k = i") simp_all
      finally show "length (m' ! k) = length (m ! k)" .
    qed
    have ent: "\<forall>k < length m. \<forall>j' < length (m ! k).
            (if k = i \<and> j' \<in> set (j # js) \<and> j' \<noteq> i then distance (cs ! i) (cs ! j') = Inr (m' ! k ! j')
             else m' ! k ! j' = m ! k ! j')"
    proof (intro allI impI)
      fix k j' assume k: "k < length m" and j': "j' < length (m ! k)"
      have k1: "k < length ?m1" using k by simp
      have j1: "j' < length (?m1 ! k)" using k j' by (cases "k = i") simp_all
      from ih(3) k1 j1 have step:
        "(if k = i \<and> j' \<in> set js \<and> j' \<noteq> i then distance (cs ! i) (cs ! j') = Inr (m' ! k ! j')
             else m' ! k ! j' = ?m1 ! k ! j')" by blast
      show "(if k = i \<and> j' \<in> set (j # js) \<and> j' \<noteq> i then distance (cs ! i) (cs ! j') = Inr (m' ! k ! j')
             else m' ! k ! j' = m ! k ! j')"
      proof (cases "k = i \<and> j' \<in> set js \<and> j' \<noteq> i")
        case True
        then show ?thesis using step by simp
      next
        case n1: False
        then have eq: "m' ! k ! j' = ?m1 ! k ! j'" using step by simp
        show ?thesis
        proof (cases "k = i \<and> j' = j")
          case True
          then have "?m1 ! k ! j' = d" using k jl by simp
          then show ?thesis using True eq d False by simp
        next
          case n2: False
          then have "?m1 ! k ! j' = m ! k ! j'" using k by (cases "k = i") auto
          then show ?thesis using n1 n2 eq by auto
        qed
      qed
    qed
    show ?thesis using len rows ent by blast
  qed
qed

lemma fill_rows_spec:
  assumes "fill_rows cs rows n m = Inr m'" and "length m = n"
    and "\<forall>k < n. length (m ! k) = n" and "\<forall>i \<in> set rows. i < n"
  shows "length m' = n \<and> (\<forall>k < n. length (m' ! k) = n) \<and>
         (\<forall>k < n. \<forall>j < n.
            (if k \<in> set rows \<and> j \<noteq> k then distance (cs ! k) (cs ! j) = Inr (m' ! k ! j)
             else m' ! k ! j = m ! k ! j))"
  using assms
proof (induction rows arbitrary: m)
  case Nil
  then show ?case by simp
next
  case (Cons i rows)
  from Cons.prems(1) obtain m1 where
    row: "fill_row cs i [0..<n] m = Inr m1" and rec: "fill_rows cs rows n m1 = Inr m'"
    by (auto split: sum.splits)
  have i: "i < n" using Cons.prems(4) by simp
  have pre: "i < length m" "\<forall>j \<in> set [0..<n]. j < length (m ! i)"
    using i Cons.prems(2,3) by simp_all
  from fill_row_spec [OF row pre]
  have s1: "length m1 = length m" "\<forall>k < length m. length (m1 ! k) = length (m ! k)"
    "\<forall>k < length m. \<forall>j < length (m ! k).
       (if k = i \<and> j \<in> set [0..<n] \<and> j \<noteq> i then distance (cs ! i) (cs ! j) = Inr (m1 ! k ! j)
        else m1 ! k ! j = m ! k ! j)"
    by simp_all
  have l1: "length m1 = n" using s1(1) Cons.prems(2) by simp
  have r1: "\<forall>k < n. length (m1 ! k) = n" using s1(2) Cons.prems(2,3) by simp
  have rest: "\<forall>i \<in> set rows. i < n" using Cons.prems(4) by simp
  from Cons.IH [OF rec l1 r1 rest]
  have ih: "length m' = n" "\<forall>k < n. length (m' ! k) = n"
    "\<forall>k < n. \<forall>j < n.
       (if k \<in> set rows \<and> j \<noteq> k then distance (cs ! k) (cs ! j) = Inr (m' ! k ! j)
        else m' ! k ! j = m1 ! k ! j)"
    by simp_all
  have "\<forall>k < n. \<forall>j < n.
       (if k \<in> set (i # rows) \<and> j \<noteq> k then distance (cs ! k) (cs ! j) = Inr (m' ! k ! j)
        else m' ! k ! j = m ! k ! j)"
  proof (intro allI impI)
    fix k j assume k: "k < n" and j: "j < n"
    have a: "(if k \<in> set rows \<and> j \<noteq> k then distance (cs ! k) (cs ! j) = Inr (m' ! k ! j)
        else m' ! k ! j = m1 ! k ! j)" using ih(3) k j by blast
    have "k < length m" "j < length (m ! k)" using k j Cons.prems(2,3) by simp_all
    then have b: "(if k = i \<and> j \<in> set [0..<n] \<and> j \<noteq> i then distance (cs ! i) (cs ! j) = Inr (m1 ! k ! j)
        else m1 ! k ! j = m ! k ! j)" using s1(3) by blast
    show "(if k \<in> set (i # rows) \<and> j \<noteq> k then distance (cs ! k) (cs ! j) = Inr (m' ! k ! j)
        else m' ! k ! j = m ! k ! j)"
      using a b j by (auto split: if_splits)
  qed
  then show ?case using ih(1,2) by blast
qed

lemma calculate_distance_matrix_spec:
  assumes "calculate_distance_matrix t = Inr t'"
  shows "cities t' = cities t \<and> length (distance_matrix t') = length (cities t) \<and>
         (\<forall>i < length (cities t). length (distance_matrix t' ! i) = length (cities t) \<and>
            (\<forall>j < length (cities t).
               (if j \<noteq> i then distance (cities t ! i) (cities t ! j) = Inr (distance_matrix t' ! i ! j)
                else distance_matrix t' ! i ! j = 0)))"
proof -
  let ?n = "length (cities t)"
  let ?m0 = "replicate ?n (replicate ?n (0::real))"
  from assms obtain m where
    fr: "fill_rows (cities t) [0..<?n] ?n ?m0 = Inr m" and t': "t' = t\<lparr>distance_matrix := m\<rparr>"
    by (auto simp: calculate_distance_matrix_def Let_def split: sum.splits)
  have "length ?m0 = ?n" "\<forall>k < ?n. length (?m0 ! k) = ?n" "\<forall>i \<in> set [0..<?n]. i < ?n"
    by simp_all
  from fill_rows_spec [OF fr this]
  have s: "length m = ?n" "\<forall>k < ?n. length (m ! k) = ?n"
    "\<forall>k < ?n. \<forall>j < ?n.
       (if k \<in> set [0..<?n] \<and> j \<noteq> k then distance (cities t ! k) (cities t ! j) = Inr (m ! k ! j)
        else m ! k ! j = ?m0 ! k ! j)"
    by simp_all
  have "\<forall>i < ?n. length (m ! i) = ?n \<and>
            (\<forall>j < ?n.
               (if j \<noteq> i then distance (cities t ! i) (cities t ! j) = Inr (m ! i ! j)
                else m ! i ! j = 0))"
  proof (intro allI impI conjI)
    fix i assume i: "i < ?n"
    show "length (m ! i) = ?n" using s(2) i by simp
    fix j assume j: "j < ?n"
    have "(if i \<in> set [0..<?n] \<and> j \<noteq> i then distance (cities t ! i) (cities t ! j) = Inr (m ! i ! j)
        else m ! i ! j = ?m0 ! i ! j)" using s(3) i j by blast
    then show "(if j \<noteq> i then distance (cities t ! i) (cities t ! j) = Inr (m ! i ! j)
                else m ! i ! j = 0)" using i j by (auto split: if_splits)
  qed
  then show ?thesis using s(1) by (simp add: t')
qed

subsection \<open>Evaluating float operations\<close>

lemma round_double_numeral:
  "(numeral k :: int) < 2 ^ 53 \<Longrightarrow> round_double (numeral k) = numeral k"
  using round_double_of_int [of "numeral k"] by simp

lemma round_double_one: "round_double 1 = 1"
  using round_double_of_int [of 1] by simp

lemma rhe_between:
  "of_int k - 1 / 2 < x \<Longrightarrow> x < of_int k + 1 / 2 \<Longrightarrow> round_half_even x = k"
proof -
  assume a: "of_int k - 1 / 2 < x" and b: "x < of_int k + 1 / 2"
  show ?thesis
  proof (cases "of_int k \<le> x")
    case True
    then have "\<lfloor>x\<rfloor> = k" using b by linarith
    then show ?thesis using b by (simp add: round_half_even_def Let_def)
  next
    case False
    then have "\<lfloor>x\<rfloor> = k - 1" using a by linarith
    then show ?thesis using a by (simp add: round_half_even_def Let_def)
  qed
qed

lemma tsp_example_matrix:
  "calculate_distance_matrix tsp_example =
     Inr (tsp_example\<lparr>distance_matrix := [[0, 98, 99], [98, 0, 1], [99, 1, 0]]\<rparr>)"
proof -
  have s: "sqrt 9604 = 98" "sqrt 9801 = 99"
    by (simp_all add: real_sqrt_unique)
  have d: "distance (0, 0) (0, 98) = Inr 98" "distance (0, 0) (0, 99) = Inr 99"
    "distance (0, 98) (0, 99) = Inr 1"
    by (simp_all add: distance_def float_sub_def float_add_def float_square_def math_sqrt_def
          round_double_minus round_double_numeral round_double_zero round_double_one s)
  have d': "distance (0, 98) (0, 0) = Inr 98" "distance (0, 99) (0, 0) = Inr 99"
    "distance (0, 99) (0, 98) = Inr 1"
    using d by (simp_all only: distance_sym)
  show ?thesis
    by (simp add: calculate_distance_matrix_def tsp_example_def upt_conv_Cons d d'
          eval_nat_numeral)
qed

subsection \<open>The binary increment machine\<close>

lemma run_utm_step:
  "select_rule rules (machine_state c) (current_symbol c) = Some r \<Longrightarrow>
   run_utm (Suc b) rules c = run_utm b rules (apply_rule r c)"
  by (simp add: run_utm.simps [of "Suc b"])

lemma run_utm_halt:
  "select_rule rules (machine_state c) (current_symbol c) = None \<Longrightarrow>
   run_utm b rules c = (c, True)"
  by (simp add: run_utm.simps [of b])

lemma increment_step:
  assumes "select_rule increment_rules q s0 = Some r"
    and "(case t h of None \<Rightarrow> ''_'' | Some s \<Rightarrow> s) = s0"
    and "next_state r = q'" and "t(h \<mapsto> write_symbol r) = t'"
    and "h + (case head_move r of MoveLeft \<Rightarrow> - 1 | MoveRight \<Rightarrow> 1 | Stay \<Rightarrow> 0) = h'"
  shows "run_utm (Suc b) increment_rules
           \<lparr>machine_state = q, tape = t, head_position = h, step_count = n\<rparr> =
         run_utm b increment_rules
           \<lparr>machine_state = q', tape = t', head_position = h', step_count = Suc n\<rparr>"
  using run_utm_step [of increment_rules
      "\<lparr>machine_state = q, tape = t, head_position = h, step_count = n\<rparr>" r b] assms
  by (simp add: current_symbol_def apply_rule_def)

lemma run_utm_example:
  "run_utm (6 + k) increment_rules
     \<lparr>machine_state = ''q0'', tape = example_tape, head_position = 0, step_count = 0\<rparr> =
   (\<lparr>machine_state = ''qhalt'', tape = [0 \<mapsto> ''1'', 1 \<mapsto> ''1'', 2 \<mapsto> ''0'', 3 \<mapsto> ''_''],
     head_position = 1, step_count = 6\<rparr>, True)"
proof -
  let ?t1 = "example_tape(0 \<mapsto> ''1'')"
  let ?t2 = "?t1(1 \<mapsto> ''0'')"
  let ?t3 = "?t2(2 \<mapsto> ''1'')"
  let ?t4 = "?t3(3 \<mapsto> ''_'')"
  let ?t5 = "?t4(2 \<mapsto> ''0'')"
  let ?t6 = "?t5(1 \<mapsto> ''1'')"
  have six: "6 + k = Suc (Suc (Suc (Suc (Suc (Suc k)))))" by simp
  have "run_utm (6 + k) increment_rules
     \<lparr>machine_state = ''q0'', tape = example_tape, head_position = 0, step_count = 0\<rparr> =
     run_utm (Suc (Suc (Suc (Suc (Suc k))))) increment_rules
     \<lparr>machine_state = ''q0'', tape = ?t1, head_position = 1, step_count = Suc 0\<rparr>"
    unfolding six
    by (rule increment_step [where r = "increment_rules ! 1"])
       (simp_all add: select_rule_def increment_rules_def example_tape_def)
  also have "\<dots> = run_utm (Suc (Suc (Suc (Suc k)))) increment_rules
     \<lparr>machine_state = ''q0'', tape = ?t2, head_position = 2, step_count = Suc (Suc 0)\<rparr>"
    by (rule increment_step [where r = "increment_rules ! 0"])
       (simp_all add: select_rule_def increment_rules_def example_tape_def)
  also have "\<dots> = run_utm (Suc (Suc (Suc k))) increment_rules
     \<lparr>machine_state = ''q0'', tape = ?t3, head_position = 3, step_count = Suc (Suc (Suc 0))\<rparr>"
    by (rule increment_step [where r = "increment_rules ! 1"])
       (simp_all add: select_rule_def increment_rules_def example_tape_def)
  also have "\<dots> = run_utm (Suc (Suc k)) increment_rules
     \<lparr>machine_state = ''q1'', tape = ?t4, head_position = 2, step_count = Suc (Suc (Suc (Suc 0)))\<rparr>"
    by (rule increment_step [where r = "increment_rules ! 2"])
       (simp_all add: select_rule_def increment_rules_def example_tape_def)
  also have "\<dots> = run_utm (Suc k) increment_rules
     \<lparr>machine_state = ''q1'', tape = ?t5, head_position = 1, step_count = Suc (Suc (Suc (Suc (Suc 0))))\<rparr>"
    by (rule increment_step [where r = "increment_rules ! 4"])
       (simp_all add: select_rule_def increment_rules_def example_tape_def)
  also have "\<dots> = run_utm k increment_rules
     \<lparr>machine_state = ''qhalt'', tape = ?t6, head_position = 1,
      step_count = Suc (Suc (Suc (Suc (Suc (Suc 0)))))\<rparr>"
    by (rule increment_step [where r = "increment_rules ! 3"])
       (simp_all add: select_rule_def increment_rules_def example_tape_def)
  also have "\<dots> =
     (\<lparr>machine_state = ''qhalt'', tape = ?t6, head_position = 1,
       step_count = Suc (Suc (Suc (Suc (Suc (Suc 0)))))\<rparr>, True)"
    by (rule run_utm_halt) (simp add: select_rule_def increment_rules_def)
  also have "?t6 = [0 \<mapsto> ''1'', 1 \<mapsto> ''1'', 2 \<mapsto> ''0'', 3 \<mapsto> ''_'']"
    by (rule ext) (simp add: example_tape_def)
  also have "Suc (Suc (Suc (Suc (Suc (Suc 0))))) = 6" by simp
  finally show ?thesis .
qed

text \<open>
  Claim C8. With the add-one rules of the example, the initial tape \<open>101_\<close>, the head at
  position 0 and the start state \<open>q0\<close>, the machine halts under every step bound of at
  least six: the final tape reads \<open>110\<close> at positions 0 to 2 (position 3 stays blank),
  the final state is \<open>qhalt\<close> and six steps, more than zero, were taken.
\<close>

theorem binary_increment_halts:
  "execute_utm_program (6 + k) ''q0'' 0 increment_rules example_tape =
     Inr \<lparr>final_tape = [0 \<mapsto> ''1'', 1 \<mapsto> ''1'', 2 \<mapsto> ''0'', 3 \<mapsto> ''_''],
          steps = 6, final_state = ''qhalt'', halted = True\<rparr>"
proof -
  have "\<not> duplicate_rules increment_rules"
    by (simp add: duplicate_rules_def increment_rules_def)
  then show ?thesis
    by (simp add: execute_utm_program_def run_utm_example)
qed

subsection \<open>Lines of a text\<close>

lemma split_lines_acc_line:
  "CHR 0x0A \<notin> set l \<Longrightarrow>
   split_lines_acc cur (l @ CHR 0x0A # rest) = (cur @ l) # split_lines_acc [] rest"
  by (induction l arbitrary: cur) auto

lemma unlines_Nil: "unlines [] = []"
  by (simp add: unlines_def)

lemma unlines_Cons: "unlines (l # ls) = l @ CHR 0x0A # unlines ls"
  by (simp add: unlines_def)

lemma unlines_append: "unlines (xs @ ys) = unlines xs @ unlines ys"
  by (simp add: unlines_def)

lemma split_lines_unlines:
  "\<forall>l \<in> set ls. CHR 0x0A \<notin> set l \<Longrightarrow> split_lines (unlines ls) = ls"
proof (induction ls)
  case Nil
  then show ?case by (simp add: split_lines_def unlines_Nil)
next
  case (Cons l ls)
  then have "split_lines_acc [] (l @ CHR 0x0A # unlines ls) = l # split_lines_acc [] (unlines ls)"
    using split_lines_acc_line [of l "[]" "unlines ls"] by simp
  then show ?case using Cons by (simp add: split_lines_def unlines_Cons)
qed

subsection \<open>Characters of the emitted names and numbers\<close>

lemma digit_char_is_digit: "d < 10 \<Longrightarrow> is_digit (digit_char d)"
proof -
  assume "d < 10"
  then have "d \<in> {0, 1, 2, 3, 4, 5, 6, 7, 8, 9}" by auto
  then show ?thesis by (auto simp: is_digit_def digit_char_def)
qed

lemma str_nat_digits: "list_all is_digit (str_nat n)"
proof (induction n rule: str_nat.induct)
  case (1 n)
  show ?case
  proof (cases "n < 10")
    case True
    then show ?thesis by (subst str_nat.simps) (simp add: digit_char_is_digit)
  next
    case False
    then show ?thesis using 1 by (subst str_nat.simps) (simp add: digit_char_is_digit)
  qed
qed

lemma str_nat_nonempty: "str_nat n \<noteq> []"
  by (subst str_nat.simps) simp

lemma pad3_digits: "list_all is_digit (pad3 k)"
  by (simp add: pad3_def digit_char_is_digit)

lemma is_digit_not_newline: "is_digit c \<Longrightarrow> c \<noteq> CHR 0x0A"
  by (auto simp: is_digit_def)

lemma is_letter_not_newline: "is_letter c \<Longrightarrow> c \<noteq> CHR 0x0A"
  by (auto simp: is_letter_def)

lemma name_char_not_newline: "name_char c \<Longrightarrow> c \<noteq> CHR 0x0A"
  by (auto simp: name_char_def is_digit_def is_letter_def)

lemma digits_name_chars: "list_all is_digit s \<Longrightarrow> list_all name_char s"
  by (induction s) (simp_all add: name_char_def)

lemma species_name_append:
  "is_species_name s \<Longrightarrow> list_all name_char t \<Longrightarrow> is_species_name (s @ t)"
  by (cases s) (simp_all add: is_species_name_def)

lemma species_name_chars: "is_species_name s \<Longrightarrow> list_all name_char s"
  by (cases s) (auto simp: is_species_name_def name_char_def)

lemma name_chars_no_newline: "list_all name_char s \<Longrightarrow> CHR 0x0A \<notin> set s"
  by (induction s) (auto dest: name_char_not_newline)

lemma digits_no_newline: "list_all is_digit s \<Longrightarrow> CHR 0x0A \<notin> set s"
  by (rule name_chars_no_newline) (rule digits_name_chars)

lemma str_nat_no_newline: "CHR 0x0A \<notin> set (str_nat n)"
  by (rule digits_no_newline) (rule str_nat_digits)

lemma simple_reaction_is_reaction:
  "is_species_name a \<Longrightarrow> is_species_name b \<Longrightarrow> is_float_text r \<Longrightarrow>
   is_reaction_line (simple_reaction a b r)"
  unfolding is_reaction_line_def simple_reaction_def
  by (rule exI [of _ "[a]"], rule exI [of _ "[b]"], rule exI [of _ r]) simp

lemma float_text_1_0: "is_float_text ''1.0''"
  unfolding is_float_text_def
  by (rule exI [of _ "[]"], rule exI [of _ "''1''"], rule exI [of _ "''0''"])
     (simp add: is_digit_def)

lemma float_text_10_0: "is_float_text ''10.0''"
  unfolding is_float_text_def
  by (rule exI [of _ "[]"], rule exI [of _ "''10''"], rule exI [of _ "''0''"])
     (simp add: is_digit_def)

lemma pad3_nonempty: "pad3 k \<noteq> []"
  by (simp add: pad3_def)

lemma format_3f_float_text: "is_float_text (format_3f x)"
  unfolding is_float_text_def format_3f_def Let_def
  by (rule exI [of _ "if x < 0 then ''-'' else []"],
      rule exI [of _ "str_nat (nat \<bar>thousandths x\<bar> div 1000)"],
      rule exI [of _ "pad3 (nat \<bar>thousandths x\<bar> mod 1000)"])
     (simp add: str_nat_digits pad3_digits str_nat_nonempty pad3_nonempty)

lemma float_text_no_newline: "is_float_text r \<Longrightarrow> CHR 0x0A \<notin> set r"
  by (auto simp: is_float_text_def dest: digits_no_newline)

lemma simple_reaction_no_newline:
  "list_all name_char a \<Longrightarrow> list_all name_char b \<Longrightarrow> is_float_text r \<Longrightarrow>
   CHR 0x0A \<notin> set (simple_reaction a b r)"
  by (auto simp: simple_reaction_def dest: name_chars_no_newline float_text_no_newline)

subsection \<open>The printed rate\<close>

lemma pad3_zero_iff: "k < 1000 \<Longrightarrow> pad3 k = ''000'' \<longleftrightarrow> k = 0"
proof
  assume k: "k < 1000" and p: "pad3 k = ''000''"
  have inj: "\<And>d. d < 10 \<Longrightarrow> digit_char d = CHR ''0'' \<Longrightarrow> d = 0"
  proof -
    fix d :: nat assume "d < 10" and z: "digit_char d = CHR ''0''"
    then have "d \<in> {0, 1, 2, 3, 4, 5, 6, 7, 8, 9}" by auto
    then show "d = 0" using z by (auto simp: digit_char_def)
  qed
  from p have "digit_char (k div 100 mod 10) = CHR ''0''" "digit_char (k div 10 mod 10) = CHR ''0''"
    "digit_char (k mod 10) = CHR ''0''" by (simp_all add: pad3_def)
  then have z: "k div 100 mod 10 = 0" "k div 10 mod 10 = 0" "k mod 10 = 0"
    using inj by simp_all
  have "k div 100 < 10" using k by simp
  then have "k div 100 = 0" using z(1) by simp
  then have "k < 100" by simp
  then have "k div 10 < 10" by simp
  then have "k div 10 = 0" using z(2) by simp
  then have "k < 10" by simp
  then show "k = 0" using z(3) by simp
next
  assume "k = 0"
  then show "pad3 k = ''000''" by (simp add: pad3_def digit_char_def)
qed

lemma format_3f_not_zero:
  assumes "0 \<le> x" and "0 < thousandths x"
  shows "format_3f x \<noteq> ''0.000''"
proof
  assume eq: "format_3f x = ''0.000''"
  let ?k = "nat \<bar>thousandths x\<bar>"
  have kpos: "0 < ?k" using assms(2) by simp
  have f: "format_3f x = str_nat (?k div 1000) @ ''.'' @ pad3 (?k mod 1000)"
    using assms(1) by (simp add: format_3f_def Let_def)
  have "length (pad3 (?k mod 1000)) = 3" by (simp add: pad3_def)
  then have "drop (length (format_3f x) - 3) (format_3f x) = pad3 (?k mod 1000)"
    unfolding f by simp
  then have p: "pad3 (?k mod 1000) = ''000''" unfolding eq by simp
  then have m: "?k mod 1000 = 0" using pad3_zero_iff [of "?k mod 1000"] by simp
  have "str_nat (?k div 1000) @ ''.000'' = ''0.000''" using eq f p by simp
  then have s: "str_nat (?k div 1000) = ''0''" by simp
  have "?k div 1000 = 0"
  proof (rule ccontr)
    assume nz: "?k div 1000 \<noteq> 0"
    show False
    proof (cases "?k div 1000 < 10")
      case True
      then have "str_nat (?k div 1000) = [digit_char (?k div 1000)]"
        by (subst str_nat.simps) simp
      then have "digit_char (?k div 1000) = CHR ''0''" using s by simp
      moreover have "?k div 1000 \<in> {1, 2, 3, 4, 5, 6, 7, 8, 9}" using True nz by auto
      ultimately show False by (auto simp: digit_char_def)
    next
      case False
      then have "str_nat (?k div 1000) =
        str_nat (?k div 1000 div 10) @ [digit_char (?k div 1000 mod 10)]"
        by (subst str_nat.simps) simp
      then have "length (str_nat (?k div 1000)) \<ge> 2"
        using str_nat_nonempty [of "?k div 1000 div 10"]
        by (cases "str_nat (?k div 1000 div 10)") simp_all
      then show False using s by simp
    qed
  qed
  then have "?k < 1000" by simp
  then have "?k mod 1000 = ?k" by simp
  then show False using m kpos by simp
qed

subsection \<open>The text of create\_tsp\_crn\<close>

lemma str_int_no_newline: "CHR 0x0A \<notin> set (str_int n)"
  by (simp add: str_int_def str_nat_no_newline)

lemma tsp_header_unlines: "tsp_header n = unlines (tsp_header_lines n)"
  by (simp add: tsp_header_def tsp_header_lines_def unlines_def)

lemma tsp_header_lines_no_newline: "\<forall>l \<in> set (tsp_header_lines n). CHR 0x0A \<notin> set l"
  by (simp add: tsp_header_lines_def str_int_no_newline)

lemma city_name: "is_species_name (''city_'' @ str_nat i)"
  using species_name_append [of "''city_''" "str_nat i"]
  by (simp add: is_species_name_def name_char_def is_letter_def digits_name_chars str_nat_digits)

lemma tsp_reaction_simple:
  "tsp_reaction i j r = simple_reaction (''city_'' @ str_nat i) (''city_'' @ str_nat j) (format_3f r)"
  by (simp add: tsp_reaction_def simple_reaction_def)

lemma tsp_reaction_is_reaction: "is_reaction_line (tsp_reaction i j r)"
  unfolding tsp_reaction_simple
  by (rule simple_reaction_is_reaction) (rule city_name, rule city_name, rule format_3f_float_text)

lemma tsp_reaction_no_newline: "CHR 0x0A \<notin> set (tsp_reaction i j r)"
  unfolding tsp_reaction_simple
  by (rule simple_reaction_no_newline)
     (rule species_name_chars [OF city_name], rule species_name_chars [OF city_name],
      rule format_3f_float_text)

lemma tsp_inner_lines:
  "tsp_inner m i js = Inr tx \<Longrightarrow>
   \<exists>ls. tx = unlines ls \<and> list_all2 (tsp_line m) (map (Pair i) (filter (\<lambda>j. i \<noteq> j) js)) ls"
proof (induction js arbitrary: tx)
  case Nil
  then show ?case by (simp add: unlines_Nil)
next
  case (Cons j js)
  show ?case
  proof (cases "i = j")
    case True
    then show ?thesis using Cons by simp
  next
    case False
    then obtain r rest where r: "edge_rate m i j = Inr r" and rest: "tsp_inner m i js = Inr rest"
      and tx_eq: "tx = tsp_reaction i j r @ CHR 0x0A # rest"
      using Cons.prems by (auto split: sum.splits)
    from Cons.IH [OF rest] obtain ls where
      ls: "rest = unlines ls" "list_all2 (tsp_line m) (map (Pair i) (filter (\<lambda>j. i \<noteq> j) js)) ls"
      by blast
    have "tx = unlines (tsp_reaction i j r # ls)" by (simp add: tx_eq ls(1) unlines_Cons)
    moreover have "list_all2 (tsp_line m) (map (Pair i) (filter (\<lambda>j. i \<noteq> j) (j # js)))
        (tsp_reaction i j r # ls)"
      using False ls(2) r by (simp add: tsp_line_def)
    ultimately show ?thesis by blast
  qed
qed

lemma tsp_outer_lines:
  "tsp_outer m rows n = Inr tx \<Longrightarrow>
   \<exists>ls. tx = unlines ls \<and> list_all2 (tsp_line m) (city_pairs rows n) ls"
proof (induction rows arbitrary: tx)
  case Nil
  then show ?case by (simp add: unlines_Nil city_pairs_def)
next
  case (Cons i rows)
  then obtain row rest where row: "tsp_inner m i [0..<n] = Inr row"
    and rest: "tsp_outer m rows n = Inr rest" and tx_eq: "tx = row @ rest"
    by (auto split: sum.splits)
  from tsp_inner_lines [OF row] obtain l1 where
    l1: "row = unlines l1" "list_all2 (tsp_line m) (map (Pair i) (filter (\<lambda>j. i \<noteq> j) [0..<n])) l1"
    by blast
  from Cons.IH [OF rest] obtain l2 where
    l2: "rest = unlines l2" "list_all2 (tsp_line m) (city_pairs rows n) l2" by blast
  have "tx = unlines (l1 @ l2)" by (simp add: tx_eq l1(1) l2(1) unlines_append)
  moreover have "list_all2 (tsp_line m) (city_pairs (i # rows) n) (l1 @ l2)"
    using l1(2) l2(2) by (simp add: city_pairs_def list_all2_appendI)
  ultimately show ?case by blast
qed

lemma tsp_line_no_newline: "tsp_line m p l \<Longrightarrow> CHR 0x0A \<notin> set l"
  by (auto simp: tsp_line_def tsp_reaction_no_newline)

lemma create_tsp_crn_lines:
  assumes "create_tsp_crn t n = Inr tx"
  shows "\<exists>body. split_lines tx = tsp_header_lines n @ body \<and>
           list_all2 (tsp_line (distance_matrix t)) (city_pairs [0..<nat n] (nat n)) body"
proof -
  from assms obtain rest where rest: "tsp_outer (distance_matrix t) [0..<nat n] (nat n) = Inr rest"
    and tx_eq: "tx = tsp_header n @ rest"
    by (auto simp: create_tsp_crn_def split: sum.splits)
  from tsp_outer_lines [OF rest] obtain body where
    body: "rest = unlines body"
      "list_all2 (tsp_line (distance_matrix t)) (city_pairs [0..<nat n] (nat n)) body" by blast
  have "\<forall>l \<in> set body. CHR 0x0A \<notin> set l"
  proof
    fix l assume "l \<in> set body"
    then obtain p where "tsp_line (distance_matrix t) p l"
      using body(2) by (metis in_set_conv_nth list_all2_conv_all_nth)
    then show "CHR 0x0A \<notin> set l" by (rule tsp_line_no_newline)
  qed
  then have nl: "\<forall>l \<in> set (tsp_header_lines n @ body). CHR 0x0A \<notin> set l"
    using tsp_header_lines_no_newline [of n] by auto
  have "tx = unlines (tsp_header_lines n @ body)"
    by (simp add: tx_eq body(1) tsp_header_unlines unlines_append)
  then have "split_lines tx = tsp_header_lines n @ body"
    using split_lines_unlines [OF nl] by simp
  then show ?thesis using body(2) by blast
qed

lemma city_pairs_set:
  "set (city_pairs [0..<n] n) = {p. fst p < n \<and> snd p < n \<and> fst p \<noteq> snd p}"
  by (auto simp: city_pairs_def)

lemma tsp_inner_total:
  "\<forall>j \<in> set js. i \<noteq> j \<longrightarrow> (\<exists>r. edge_rate m i j = Inr r) \<Longrightarrow> \<exists>tx. tsp_inner m i js = Inr tx"
proof (induction js)
  case Nil
  then show ?case by simp
next
  case (Cons j js)
  then obtain tx where t: "tsp_inner m i js = Inr tx" by auto
  show ?case
  proof (cases "i = j")
    case True
    then show ?thesis using t by simp
  next
    case False
    then obtain r where "edge_rate m i j = Inr r" using Cons.prems by auto
    then show ?thesis using False t by simp
  qed
qed

lemma tsp_outer_total:
  "\<forall>i \<in> set rows. \<forall>j < n. i \<noteq> j \<longrightarrow> (\<exists>r. edge_rate m i j = Inr r) \<Longrightarrow>
   \<exists>tx. tsp_outer m rows n = Inr tx"
proof (induction rows)
  case Nil
  then show ?case by simp
next
  case (Cons i rows)
  then obtain rest where r: "tsp_outer m rows n = Inr rest" by auto
  have "\<forall>j \<in> set [0..<n]. i \<noteq> j \<longrightarrow> (\<exists>r. edge_rate m i j = Inr r)" using Cons.prems by simp
  from tsp_inner_total [OF this] obtain row where "tsp_inner m i [0..<n] = Inr row" by blast
  then show ?case using r by simp
qed

subsection \<open>Rates of the TSP encoder\<close>

lemma thousandths_mono: "x \<le> y \<Longrightarrow> thousandths x \<le> thousandths y"
  unfolding thousandths_def by (rule rhe_mono) simp

lemma float_add_one_ge: "0 \<le> d \<Longrightarrow> 1 \<le> float_add d 1"
  using round_double_mono [of 1 "d + 1"] by (simp add: float_add_def round_double_one)

lemma tsp_rate_value: "0 \<le> d \<Longrightarrow> tsp_rate d = Inr (round_double (1 / float_add d 1))"
  using float_add_one_ge [of d] by (simp add: tsp_rate_def float_div_def)

lemma tsp_rate_mono:
  assumes "0 \<le> d1" and "d1 \<le> d2"
  shows "round_double (1 / float_add d2 1) \<le> round_double (1 / float_add d1 1)"
proof -
  have a: "1 \<le> float_add d1 1" using assms(1) by (rule float_add_one_ge)
  have "float_add d1 1 \<le> float_add d2 1"
    unfolding float_add_def using assms(2) by (intro round_double_mono) simp
  then have "1 / float_add d2 1 \<le> 1 / float_add d1 1"
    using a by (intro divide_left_mono) simp_all
  then show ?thesis by (rule round_double_mono)
qed

lemma round_double_100: "round_double 100 = 100"
  by (simp add: round_double_numeral)

lemma tsp_rate_lower:
  assumes "0 \<le> d" and "d \<le> 142"
  shows "1 / 256 \<le> round_double (1 / float_add d 1) \<and> round_double (1 / float_add d 1) \<le> 1"
proof -
  have lo: "1 \<le> float_add d 1" using assms(1) by (rule float_add_one_ge)
  have "float_add d 1 \<le> round_double 143"
    unfolding float_add_def using assms(2) by (intro round_double_mono) simp
  then have hi: "float_add d 1 \<le> 143" by (simp add: round_double_numeral)
  have "1 / 256 \<le> 1 / float_add d 1"
    using lo hi by (simp add: field_simps)
  moreover have "1 / float_add d 1 \<le> 1" using lo by simp
  moreover have "round_double (1 / 256) = 1 / 256" using round_double_dyadic [of 1 8] by simp
  ultimately show ?thesis
    using round_double_between [of "1 / 256" 1 "1 / float_add d 1"] by (simp add: round_double_one)
qed

lemma thousandths_lower: "1 / 256 \<le> r \<Longrightarrow> 4 \<le> thousandths r"
proof -
  assume "1 / 256 \<le> r"
  then have "thousandths (1 / 256) \<le> thousandths r" by (rule thousandths_mono)
  moreover have "thousandths (1 / 256) = 4"
    unfolding thousandths_def by (rule rhe_between) simp_all
  ultimately show ?thesis by simp
qed

lemma float_sub_bounded:
  assumes "0 \<le> x" "x \<le> 100" "0 \<le> y" "y \<le> 100"
  shows "\<bar>float_sub x y\<bar> \<le> 100"
proof -
  have "round_double (- 100) \<le> float_sub x y" "float_sub x y \<le> round_double 100"
    unfolding float_sub_def using assms by (auto intro!: round_double_mono)
  then show ?thesis by (simp add: round_double_minus round_double_100)
qed

lemma float_square_bounded:
  assumes "\<bar>a\<bar> \<le> 100"
  shows "\<exists>s. float_square a = Inr s \<and> 0 \<le> s \<and> s \<le> 10000"
proof -
  have "a * a = \<bar>a\<bar> * \<bar>a\<bar>" by simp
  also have "\<dots> \<le> 100 * 100" using assms by (intro mult_mono) simp_all
  finally have le: "a * a \<le> 10000" by simp
  have "round_double (a * a) \<le> round_double 10000" using le by (rule round_double_mono)
  then have hi: "round_double (a * a) \<le> 10000" by (simp add: round_double_numeral)
  have lo: "0 \<le> round_double (a * a)" by (rule round_double_nonneg) simp
  have "(10000::real) < 2 ^ 1024" by simp
  then have "\<not> 2 ^ 1024 \<le> round_double (a * a)" using hi by linarith
  then show ?thesis using lo hi by (simp add: float_square_def)
qed

lemma distance_bounded:
  assumes "0 \<le> fst c1" "fst c1 \<le> 100" "0 \<le> snd c1" "snd c1 \<le> 100"
    and "0 \<le> fst c2" "fst c2 \<le> 100" "0 \<le> snd c2" "snd c2 \<le> 100"
  shows "\<exists>d. distance c1 c2 = Inr d \<and> 0 \<le> d \<and> d \<le> 142"
proof -
  obtain dx where dx: "float_square (float_sub (fst c1) (fst c2)) = Inr dx" "0 \<le> dx" "dx \<le> 10000"
    using float_square_bounded [OF float_sub_bounded [OF assms(1,2,5,6)]] by blast
  obtain dy where dy: "float_square (float_sub (snd c1) (snd c2)) = Inr dy" "0 \<le> dy" "dy \<le> 10000"
    using float_square_bounded [OF float_sub_bounded [OF assms(3,4,7,8)]] by blast
  have "float_add dx dy \<le> round_double 20000"
    unfolding float_add_def using dx(3) dy(3) by (intro round_double_mono) simp
  then have hi: "float_add dx dy \<le> 20000" by (simp add: round_double_numeral)
  have lo: "0 \<le> float_add dx dy"
    unfolding float_add_def using dx(2) dy(2) by (intro round_double_nonneg) simp
  have "float_add dx dy \<le> 20164" using hi by simp
  then have "sqrt (float_add dx dy) \<le> sqrt 20164" by (rule real_sqrt_le_mono)
  also have "sqrt 20164 = 142" by (rule real_sqrt_unique) simp_all
  finally have "round_double (sqrt (float_add dx dy)) \<le> round_double 142"
    by (rule round_double_mono)
  then have "round_double (sqrt (float_add dx dy)) \<le> 142" by (simp add: round_double_numeral)
  moreover have "0 \<le> round_double (sqrt (float_add dx dy))"
    using lo by (intro round_double_nonneg) simp
  ultimately show ?thesis using lo by (simp add: distance_def dx(1) dy(1) math_sqrt_def)
qed

lemma fill_row_total:
  "\<forall>j \<in> set js. \<exists>d. distance (cs ! i) (cs ! j) = Inr d \<Longrightarrow> \<exists>m'. fill_row cs i js m = Inr m'"
proof (induction js arbitrary: m)
  case Nil
  then show ?case by simp
next
  case (Cons j js)
  then obtain d where d: "distance (cs ! i) (cs ! j) = Inr d" by auto
  have rest: "\<forall>j \<in> set js. \<exists>d. distance (cs ! i) (cs ! j) = Inr d" using Cons.prems by simp
  show ?case
  proof (cases "i = j")
    case True
    then show ?thesis using Cons.IH [OF rest, of m] by simp
  next
    case False
    then show ?thesis using Cons.IH [OF rest, of "m[i := (m ! i)[j := d]]"] d by simp
  qed
qed

lemma fill_rows_total:
  "\<forall>i \<in> set rows. \<forall>j < n. \<exists>d. distance (cs ! i) (cs ! j) = Inr d \<Longrightarrow>
   \<exists>m'. fill_rows cs rows n m = Inr m'"
proof (induction rows arbitrary: m)
  case Nil
  then show ?case by simp
next
  case (Cons i rows)
  have "\<forall>j \<in> set [0..<n]. \<exists>d. distance (cs ! i) (cs ! j) = Inr d" using Cons.prems by simp
  from fill_row_total [OF this] obtain m1 where "fill_row cs i [0..<n] m = Inr m1" by blast
  then show ?case using Cons by simp
qed

lemma calculate_distance_matrix_total:
  assumes "in_square t"
  shows "\<exists>t'. calculate_distance_matrix t = Inr t'"
proof -
  let ?n = "length (cities t)"
  have "\<forall>i \<in> set [0..<?n]. \<forall>j < ?n. \<exists>d. distance (cities t ! i) (cities t ! j) = Inr d"
  proof (intro ballI allI impI)
    fix i j assume "i \<in> set [0..<?n]" and "j < ?n"
    then have "cities t ! i \<in> set (cities t)" "cities t ! j \<in> set (cities t)" by simp_all
    then show "\<exists>d. distance (cities t ! i) (cities t ! j) = Inr d"
      using assms distance_bounded [of "cities t ! i" "cities t ! j"]
      unfolding in_square_def by blast
  qed
  from fill_rows_total [OF this] obtain m where
    "fill_rows (cities t) [0..<?n] ?n (replicate ?n (replicate ?n 0)) = Inr m" by blast
  then show ?thesis by (simp add: calculate_distance_matrix_def)
qed

lemma matrix_entry_in_range:
  "i < length m \<Longrightarrow> j < length (m ! i) \<Longrightarrow> matrix_entry m i j = Inr (m ! i ! j)"
  by (simp add: matrix_entry_def py_index_def)

text \<open>The entries of a computed matrix and the rates read from them.\<close>

lemma computed_entry:
  assumes "calculate_distance_matrix t = Inr t'" and "i < length (cities t)" and "j < length (cities t)"
  shows "matrix_entry (distance_matrix t') i j = Inr (distance_matrix t' ! i ! j)"
    and "0 \<le> distance_matrix t' ! i ! j"
    and "edge_rate (distance_matrix t') i j =
           Inr (round_double (1 / float_add (distance_matrix t' ! i ! j) 1))"
    and "in_square t \<Longrightarrow> distance_matrix t' ! i ! j \<le> 142"
proof -
  note spec = calculate_distance_matrix_spec [OF assms(1)]
  have len: "i < length (distance_matrix t')" "j < length (distance_matrix t' ! i)"
    using spec assms(2,3) by simp_all
  show e: "matrix_entry (distance_matrix t') i j = Inr (distance_matrix t' ! i ! j)"
    using len by (rule matrix_entry_in_range)
  have c: "if j \<noteq> i then distance (cities t ! i) (cities t ! j) = Inr (distance_matrix t' ! i ! j)
           else distance_matrix t' ! i ! j = 0"
    using spec assms(2,3) by blast
  show nn: "0 \<le> distance_matrix t' ! i ! j"
    using c distance_nonneg [of "cities t ! i" "cities t ! j"] by (auto split: if_splits)
  show "edge_rate (distance_matrix t') i j =
           Inr (round_double (1 / float_add (distance_matrix t' ! i ! j) 1))"
    by (simp add: edge_rate_def e tsp_rate_value [OF nn])
  assume sq: "in_square t"
  have "cities t ! i \<in> set (cities t)" "cities t ! j \<in> set (cities t)" using assms(2,3) by simp_all
  then obtain d where "distance (cities t ! i) (cities t ! j) = Inr d" "d \<le> 142"
    using sq distance_bounded [of "cities t ! i" "cities t ! j"] unfolding in_square_def by blast
  then show "distance_matrix t' ! i ! j \<le> 142" using c by (auto split: if_splits)
qed

lemma create_tsp_crn_total:
  assumes "calculate_distance_matrix t = Inr t'"
  shows "\<exists>tx. create_tsp_crn t' (int (length (cities t))) = Inr tx"
proof -
  let ?n = "length (cities t)"
  have "\<forall>i \<in> set [0..<?n]. \<forall>j < ?n. i \<noteq> j \<longrightarrow> (\<exists>r. edge_rate (distance_matrix t') i j = Inr r)"
    using computed_entry(3) [OF assms] by simp
  from tsp_outer_total [OF this] obtain tx where
    "tsp_outer (distance_matrix t') [0..<?n] ?n = Inr tx" by blast
  then show ?thesis by (simp add: create_tsp_crn_def)
qed

subsection \<open>The text of create\_sat\_crn\<close>

lemma join_no_newline:
  "CHR 0x0A \<notin> set sep \<Longrightarrow> \<forall>x \<in> set xs. CHR 0x0A \<notin> set x \<Longrightarrow> CHR 0x0A \<notin> set (join sep xs)"
  by (induction sep xs rule: join.induct) auto

lemma repr_clause_no_newline: "CHR 0x0A \<notin> set (repr_clause c)"
proof -
  have "\<forall>x \<in> set (map repr_literal c). CHR 0x0A \<notin> set x"
    by (auto simp: repr_literal_def str_int_no_newline)
  then have "CHR 0x0A \<notin> set (join '', '' (map repr_literal c))"
    by (intro join_no_newline) simp_all
  then show ?thesis by (simp add: repr_clause_def)
qed

lemma sat_rate_line_ok: "sat_rate_line l \<Longrightarrow> is_reaction_line l \<and> CHR 0x0A \<notin> set l"
proof -
  assume "sat_rate_line l"
  then obtain a b r where n: "is_species_name a" "is_species_name b"
    and r: "r = ''1.0'' \<or> r = ''10.0''" and l: "l = simple_reaction a b r"
    unfolding sat_rate_line_def by blast
  have f: "is_float_text r" using r float_text_1_0 float_text_10_0 by auto
  show ?thesis
    unfolding l
    using simple_reaction_is_reaction [OF n f]
      simple_reaction_no_newline [OF species_name_chars [OF n(1)] species_name_chars [OF n(2)] f]
    by simp
qed

lemma py_index_member: "py_index xs i = Inr x \<Longrightarrow> x \<in> set xs"
  by (auto simp: py_index_def split: if_splits)

lemma suffix_true_false:
  "is_species_name v \<Longrightarrow> is_species_name (v @ ''_true'') \<and> is_species_name (v @ ''_false'')"
  using species_name_append [of v "''_true''"] species_name_append [of v "''_false''"]
  by (simp add: name_char_def is_letter_def)

lemma clause_reactants_names:
  "\<forall>v \<in> set vars. is_species_name v \<Longrightarrow> clause_reactants vars c = Inr rs \<Longrightarrow>
   \<forall>r \<in> set rs. is_species_name r"
proof (induction c arbitrary: rs)
  case Nil
  then show ?case by simp
next
  case (Cons l c)
  obtain i neg where l: "l = (i, neg)" by (cases l)
  from Cons.prems(2) obtain v rest where v: "py_index vars i = Inr v"
    and rest: "clause_reactants vars c = Inr rest"
    and rs: "rs = (v @ ''_'' @ (if neg then ''false'' else ''true'')) # rest"
    by (auto simp: l split: sum.splits)
  have "is_species_name v" using Cons.prems(1) py_index_member [OF v] by simp
  then have "is_species_name (v @ ''_'' @ (if neg then ''false'' else ''true''))"
    using suffix_true_false [of v] by simp
  then show ?case using Cons.IH [OF Cons.prems(1) rest] by (simp add: rs)
qed

lemma clause_target_name: "is_species_name (''clause_'' @ str_nat i @ ''_satisfied'')"
proof -
  have "list_all name_char (str_nat i @ ''_satisfied'')"
    using digits_name_chars [OF str_nat_digits [of i]] by (simp add: name_char_def is_letter_def)
  then show ?thesis
    using species_name_append [of "''clause_''" "str_nat i @ ''_satisfied''"]
    by (simp add: is_species_name_def name_char_def is_letter_def)
qed

lemma variable_reactions_lines:
  "variable_reactions var =
     unlines [simple_reaction (var @ ''_false'') (var @ ''_true'') ''1.0'',
              simple_reaction (var @ ''_true'') (var @ ''_false'') ''1.0'']"
  by (simp add: variable_reactions_def unlines_def simple_reaction_def)

lemma clause_block_lines:
  "clause_block i c reactants =
     unlines ((''-- Clause '' @ str_nat (i + 1) @ '': '' @ repr_clause c) #
              map (\<lambda>r. simple_reaction r (''clause_'' @ str_nat i @ ''_satisfied'') ''10.0'') reactants)"
proof -
  have "concat (map (clause_reaction i) reactants) =
        unlines (map (\<lambda>r. simple_reaction r (''clause_'' @ str_nat i @ ''_satisfied'') ''10.0'') reactants)"
    by (induction reactants) (simp_all add: unlines_def clause_reaction_def simple_reaction_def)
  then show ?thesis by (simp add: clause_block_def unlines_Cons)
qed

lemma variables_lines:
  "\<forall>v \<in> set vars. is_species_name v \<Longrightarrow>
   \<exists>ls. concat (map variable_reactions vars) = unlines ls \<and> (\<forall>l \<in> set ls. sat_line l)"
proof (induction vars)
  case Nil
  have "concat (map variable_reactions []) = unlines []" by (simp add: unlines_Nil)
  then show ?case by (metis empty_iff list.set(1))
next
  case (Cons v vars)
  then obtain ls where ls: "concat (map variable_reactions vars) = unlines ls"
    "\<forall>l \<in> set ls. sat_line l" by auto
  let ?a = "simple_reaction (v @ ''_false'') (v @ ''_true'') ''1.0''"
  let ?b = "simple_reaction (v @ ''_true'') (v @ ''_false'') ''1.0''"
  have n: "is_species_name (v @ ''_true'')" "is_species_name (v @ ''_false'')"
    using suffix_true_false [of v] Cons.prems by simp_all
  have "sat_rate_line ?a" "sat_rate_line ?b"
    unfolding sat_rate_line_def using n by blast+
  then have "sat_line ?a" "sat_line ?b" using sat_rate_line_ok by (simp_all add: sat_line_def)
  moreover have "concat (map variable_reactions (v # vars)) = unlines (?a # ?b # ls)"
    by (simp add: variable_reactions_lines ls(1) unlines_Cons unlines_Nil)
  ultimately show ?case using ls(2) by (metis set_ConsD)
qed

lemma clause_blocks_lines:
  "\<forall>v \<in> set vars. is_species_name v \<Longrightarrow> clause_blocks vars i cs = Inr tx \<Longrightarrow>
   \<exists>ls. tx = unlines ls \<and> (\<forall>l \<in> set ls. sat_line l)"
proof (induction cs arbitrary: i tx)
  case Nil
  then have "tx = unlines []" by (simp add: unlines_Nil)
  then show ?case by (metis empty_iff list.set(1))
next
  case (Cons c cs)
  from Cons.prems(2) obtain rs rest where rs: "clause_reactants vars c = Inr rs"
    and rest: "clause_blocks vars (Suc i) cs = Inr rest"
    and tx_eq: "tx = clause_block i c rs @ rest"
    by (auto split: sum.splits)
  from Cons.IH [OF Cons.prems(1) rest] obtain ls where
    ls: "rest = unlines ls" "\<forall>l \<in> set ls. sat_line l" by blast
  let ?head = "''-- Clause '' @ str_nat (i + 1) @ '': '' @ repr_clause c"
  let ?body = "map (\<lambda>r. simple_reaction r (''clause_'' @ str_nat i @ ''_satisfied'') ''10.0'') rs"
  have names: "\<forall>r \<in> set rs. is_species_name r"
    using clause_reactants_names [OF Cons.prems(1) rs] .
  have h: "sat_line ?head"
    by (simp add: sat_line_def is_comment_line_def str_nat_no_newline repr_clause_no_newline)
  have b: "\<forall>l \<in> set ?body. sat_line l"
  proof
    fix l assume "l \<in> set ?body"
    then obtain r where r: "r \<in> set rs"
      and l: "l = simple_reaction r (''clause_'' @ str_nat i @ ''_satisfied'') ''10.0''" by auto
    have "sat_rate_line l"
      unfolding sat_rate_line_def l using names r clause_target_name [of i] by blast
    then show "sat_line l" using sat_rate_line_ok by (simp add: sat_line_def)
  qed
  have "tx = unlines ((?head # ?body) @ ls)"
    by (simp only: tx_eq clause_block_lines ls(1) unlines_append)
  moreover have "\<forall>l \<in> set ((?head # ?body) @ ls). sat_line l" using h b ls(2) by auto
  ultimately show ?case by blast
qed

lemma create_sat_crn_lines:
  assumes "\<forall>v \<in> set (variables b). is_species_name v" and "create_sat_crn b = Inr tx"
  shows "\<forall>l \<in> set (split_lines tx). l = [] \<or> is_comment_line l \<or> sat_rate_line l"
proof -
  from assms(2) obtain rest where rest: "clause_blocks (variables b) 0 (clauses b) = Inr rest"
    and tx_eq: "tx = sat_header @ concat (map variable_reactions (variables b)) @
        ''\<newline>-- Clause satisfaction reactions\<newline>'' @ rest"
    by (auto simp: create_sat_crn_def split: sum.splits)
  let ?h = "[''-- 3-SAT Chemical Reaction Network'',
     ''-- Variables represented as molecular species (TRUE/FALSE states)'',
     ''-- Clauses as reactions that must be satisfied'', '''']"
  let ?m = "['''', ''-- Clause satisfaction reactions'']"
  have hd: "sat_header = unlines ?h" by (simp add: sat_header_def unlines_def)
  have md: "''\<newline>-- Clause satisfaction reactions\<newline>'' = unlines ?m" by (simp add: unlines_def)
  obtain l1 where l1: "concat (map variable_reactions (variables b)) = unlines l1"
    "\<forall>l \<in> set l1. sat_line l" using variables_lines [OF assms(1)] by blast
  obtain l2 where l2: "rest = unlines l2" "\<forall>l \<in> set l2. sat_line l"
    using clause_blocks_lines [OF assms(1) rest] by blast
  have "\<forall>l \<in> set ?h. sat_line l" "\<forall>l \<in> set ?m. sat_line l"
    by (simp_all add: sat_line_def is_comment_line_def)
  then have all: "\<forall>l \<in> set (?h @ l1 @ ?m @ l2). sat_line l" using l1(2) l2(2) by auto
  have "tx = unlines (?h @ l1 @ ?m @ l2)"
    unfolding tx_eq hd md l1(1) l2(1) by (simp only: unlines_append)
  moreover have "\<forall>l \<in> set (?h @ l1 @ ?m @ l2). CHR 0x0A \<notin> set l"
    using all by (simp add: sat_line_def)
  ultimately have "split_lines tx = ?h @ l1 @ ?m @ l2" using split_lines_unlines by blast
  then show ?thesis using all by (simp add: sat_line_def)
qed

lemma clause_reactants_total:
  "\<forall>l \<in> set c. 0 \<le> fst l \<and> fst l < int (length vars) \<Longrightarrow> \<exists>rs. clause_reactants vars c = Inr rs"
proof (induction c)
  case Nil
  then show ?case by simp
next
  case (Cons l c)
  obtain i neg where l: "l = (i, neg)" by (cases l)
  from Cons obtain rs where "clause_reactants vars c = Inr rs" by auto
  then show ?case using Cons.prems by (simp add: l py_index_in_range)
qed

lemma clause_blocks_total:
  "\<forall>c \<in> set cs. \<forall>l \<in> set c. 0 \<le> fst l \<and> fst l < int (length vars) \<Longrightarrow>
   \<exists>tx. clause_blocks vars i cs = Inr tx"
proof (induction cs arbitrary: i)
  case Nil
  then show ?case by simp
next
  case (Cons c cs)
  then obtain rs where "clause_reactants vars c = Inr rs"
    using clause_reactants_total [of c vars] by auto
  moreover obtain rest where "clause_blocks vars (Suc i) cs = Inr rest"
    using Cons.IH [of "Suc i"] Cons.prems by auto
  ultimately show ?case by simp
qed

lemma create_sat_crn_total: "instance_ok b \<Longrightarrow> \<exists>tx. create_sat_crn b = Inr tx"
  using clause_blocks_total [of "clauses b" "variables b" 0]
  by (auto simp: create_sat_crn_def instance_ok_def)

text \<open>What \<open>generate_3sat_instance\<close> leaves in the benchmark.\<close>

lemma generate_clauses_in_range:
  "generate_clauses k num_vars g = Inr (cs, g') \<Longrightarrow>
   \<forall>c \<in> set cs. \<forall>l \<in> set c. 0 \<le> fst l \<and> fst l < num_vars"
proof (induction k arbitrary: g cs)
  case 0
  then show ?case by simp
next
  case (Suc k)
  from Suc.prems obtain sel g1 c g2 rest where
    rs: "random_sample (py_range num_vars) 3 g = Inr (sel, g1)"
    and nl: "negate_literals sel g1 = (c, g2)"
    and rec: "generate_clauses k num_vars g2 = Inr (rest, g')" and cs: "cs = c # rest"
    by (auto split: sum.splits prod.splits)
  have len: "3 \<le> length (py_range num_vars)" and sp: "sample_pool (py_range num_vars) 3 g = (sel, g1)"
    using rs by (auto simp: random_sample_def split: if_splits)
  have "set sel \<subseteq> set (py_range num_vars)"
    using sample_pool_props [OF len py_range_props(1) sp] by simp
  moreover have "map fst c = sel" using nl by (rule negate_literals_fst)
  ultimately have "\<forall>l \<in> set c. fst l \<in> set (py_range num_vars)"
    by (metis image_eqI set_map subsetD)
  then have "\<forall>l \<in> set c. 0 \<le> fst l \<and> fst l < num_vars"
    by (simp add: py_range_props)
  then show ?case using Suc.IH [OF rec] by (simp add: cs)
qed

lemma variable_name: "0 \<le> i \<Longrightarrow> is_species_name (''x'' @ str_int i)"
  using species_name_append [of "''x''" "str_nat (nat i)"] digits_name_chars [OF str_nat_digits]
  by (simp add: str_int_def is_species_name_def is_letter_def)

lemma generated_instance:
  assumes "generate_3sat_instance num_vars num_clauses g = Inr (b, g')"
  shows "instance_ok b" and "\<forall>v \<in> set (variables b). is_species_name v"
proof -
  from assms obtain nc cs where
    gc: "generate_clauses (nat nc) num_vars g = Inr (cs, g')"
    and b: "b = \<lparr>variables = map (\<lambda>i. ''x'' @ str_int i) (py_range num_vars), clauses = cs\<rparr>"
    by (auto simp: generate_3sat_instance_def split: sum.splits option.splits)
  show "instance_ok b"
    unfolding instance_ok_def b
  proof (intro ballI)
    fix c l assume c: "c \<in> set (clauses \<lparr>variables = map (\<lambda>i. ''x'' @ str_int i) (py_range num_vars), clauses = cs\<rparr>)"
      and l: "l \<in> set c"
    then have r: "0 \<le> fst l" "fst l < num_vars" using generate_clauses_in_range [OF gc] by auto
    then have "int (nat num_vars) = num_vars" by simp
    then show "0 \<le> fst l \<and> fst l < int (length (variables
        \<lparr>variables = map (\<lambda>i. ''x'' @ str_int i) (py_range num_vars), clauses = cs\<rparr>))"
      using r by (simp add: py_range_props)
  qed
  show "\<forall>v \<in> set (variables b). is_species_name v"
  proof
    fix v assume "v \<in> set (variables b)"
    then obtain i where "i \<in> set (py_range num_vars)" and v: "v = ''x'' @ str_int i"
      by (auto simp: b)
    then have "0 \<le> i" by (simp add: py_range_props)
    then show "is_species_name v" unfolding v by (rule variable_name)
  qed
qed

subsection \<open>Rates in the emitted text\<close>

lemma list_all2_right: "list_all2 P xs ys \<Longrightarrow> y \<in> set ys \<Longrightarrow> \<exists>x \<in> set xs. P x y"
  by (induction rule: list_all2_induct) auto

lemma list_all2_left: "list_all2 P xs ys \<Longrightarrow> x \<in> set xs \<Longrightarrow> \<exists>y \<in> set ys. P x y"
  by (induction rule: list_all2_induct) auto

lemma tsp_header_lines_kind: "\<forall>l \<in> set (tsp_header_lines n). l = [] \<or> is_comment_line l"
  by (simp add: tsp_header_lines_def is_comment_line_def)

text \<open>The lines of the text emitted for a computed matrix: the header, and one reaction
  per ordered pair of distinct cities, carrying the rate read from the matrix.\<close>

lemma computed_text_lines:
  assumes "calculate_distance_matrix t = Inr t'"
    and "create_tsp_crn t' (int (length (cities t))) = Inr tx"
  shows "\<forall>l \<in> set (split_lines tx). l = [] \<or> is_comment_line l \<or>
           (\<exists>i j. i < length (cities t) \<and> j < length (cities t) \<and> i \<noteq> j \<and>
              l = tsp_reaction i j
                    (round_double (1 / float_add (distance_matrix t' ! i ! j) 1)))"
    and "i < length (cities t) \<Longrightarrow> j < length (cities t) \<Longrightarrow> i \<noteq> j \<Longrightarrow>
         tsp_reaction i j (round_double (1 / float_add (distance_matrix t' ! i ! j) 1))
           \<in> set (split_lines tx)"
proof -
  let ?n = "length (cities t)"
  let ?m = "distance_matrix t'"
  from create_tsp_crn_lines [OF assms(2)] obtain body where
    sl: "split_lines tx = tsp_header_lines (int ?n) @ body"
    and all2: "list_all2 (tsp_line ?m) (city_pairs [0..<?n] ?n) body" by auto
  have line: "\<And>p l. p \<in> set (city_pairs [0..<?n] ?n) \<Longrightarrow> tsp_line ?m p l \<Longrightarrow>
      l = tsp_reaction (fst p) (snd p) (round_double (1 / float_add (?m ! fst p ! snd p) 1))"
  proof -
    fix p l assume p: "p \<in> set (city_pairs [0..<?n] ?n)" and tl: "tsp_line ?m p l"
    from p have r: "fst p < ?n" "snd p < ?n" by (simp_all add: city_pairs_set)
    from tl obtain r where "edge_rate ?m (fst p) (snd p) = Inr r"
      and l: "l = tsp_reaction (fst p) (snd p) r" unfolding tsp_line_def by blast
    then have "r = round_double (1 / float_add (?m ! fst p ! snd p) 1)"
      using computed_entry(3) [OF assms(1) r] by simp
    then show "l = tsp_reaction (fst p) (snd p) (round_double (1 / float_add (?m ! fst p ! snd p) 1))"
      using l by simp
  qed
  show "\<forall>l \<in> set (split_lines tx). l = [] \<or> is_comment_line l \<or>
           (\<exists>i j. i < ?n \<and> j < ?n \<and> i \<noteq> j \<and>
              l = tsp_reaction i j (round_double (1 / float_add (?m ! i ! j) 1)))"
  proof
    fix l assume "l \<in> set (split_lines tx)"
    then consider "l \<in> set (tsp_header_lines (int ?n))" | "l \<in> set body" using sl by auto
    then show "l = [] \<or> is_comment_line l \<or>
           (\<exists>i j. i < ?n \<and> j < ?n \<and> i \<noteq> j \<and>
              l = tsp_reaction i j (round_double (1 / float_add (?m ! i ! j) 1)))"
    proof cases
      case 1
      then show ?thesis using tsp_header_lines_kind by blast
    next
      case 2
      from list_all2_right [OF all2 2] obtain p where
        p: "p \<in> set (city_pairs [0..<?n] ?n)" "tsp_line ?m p l" by blast
      have "fst p < ?n \<and> snd p < ?n \<and> fst p \<noteq> snd p" using p(1) by (simp add: city_pairs_set)
      then show ?thesis using line [OF p] by blast
    qed
  qed
  assume ij: "i < ?n" "j < ?n" "i \<noteq> j"
  then have p: "(i, j) \<in> set (city_pairs [0..<?n] ?n)" by (simp add: city_pairs_set)
  from list_all2_left [OF all2 p] obtain l where l: "l \<in> set body" "tsp_line ?m (i, j) l" by blast
  have "l = tsp_reaction i j (round_double (1 / float_add (?m ! i ! j) 1))"
    using line [OF p l(2)] by simp
  then show "tsp_reaction i j (round_double (1 / float_add (?m ! i ! j) 1)) \<in> set (split_lines tx)"
    using l(1) sl by simp
qed

text \<open>
  Claim C4, as the code has it. For the matrix that \<open>calculate_distance_matrix\<close> computes
  and the text that \<open>create_tsp_crn\<close> emits from it, take two ordered pairs of distinct
  cities. Both have their reaction line in the text, and the pair whose distance is
  smaller or equal has a rate that is greater or equal, as a float and as the number
  printed with three decimals. The order is not strict: the rate is rounded, to a float
  and then to three decimals, so pairs at different distances can carry the same rate in
  the text.
\<close>

theorem tsp_rate_antitone:
  assumes "calculate_distance_matrix t = Inr t'"
    and "create_tsp_crn t' (int (length (cities t))) = Inr tx"
    and "i < length (cities t)" "j < length (cities t)" "i \<noteq> j"
    and "k < length (cities t)" "l < length (cities t)" "k \<noteq> l"
    and "distance_matrix t' ! i ! j \<le> distance_matrix t' ! k ! l"
  shows "\<exists>r1 r2. edge_rate (distance_matrix t') i j = Inr r1 \<and>
           edge_rate (distance_matrix t') k l = Inr r2 \<and>
           tsp_reaction i j r1 \<in> set (split_lines tx) \<and>
           tsp_reaction k l r2 \<in> set (split_lines tx) \<and>
           r2 \<le> r1 \<and> thousandths r2 \<le> thousandths r1"
proof -
  let ?m = "distance_matrix t'"
  let ?r1 = "round_double (1 / float_add (?m ! i ! j) 1)"
  let ?r2 = "round_double (1 / float_add (?m ! k ! l) 1)"
  have e1: "edge_rate ?m i j = Inr ?r1" using computed_entry(3) [OF assms(1,3,4)] .
  have e2: "edge_rate ?m k l = Inr ?r2" using computed_entry(3) [OF assms(1,6,7)] .
  have l1: "tsp_reaction i j ?r1 \<in> set (split_lines tx)"
    using computed_text_lines(2) [OF assms(1,2,3,4,5)] .
  have l2: "tsp_reaction k l ?r2 \<in> set (split_lines tx)"
    using computed_text_lines(2) [OF assms(1,2,6,7,8)] .
  have nn: "0 \<le> ?m ! i ! j" using computed_entry(2) [OF assms(1,3,4)] .
  have le: "?r2 \<le> ?r1" using nn assms(9) by (rule tsp_rate_mono)
  then have "thousandths ?r2 \<le> thousandths ?r1" by (rule thousandths_mono)
  then show ?thesis using e1 e2 l1 l2 le by blast
qed

subsection \<open>The text of the three-city example\<close>

lemma format_3f_value:
  "0 \<le> x \<Longrightarrow> thousandths x = int k \<Longrightarrow>
   format_3f x = str_nat (k div 1000) @ ''.'' @ pad3 (k mod 1000)"
  by (simp add: format_3f_def)

lemma rate_text_010:
  assumes "5 / 512 \<le> x" and "x \<le> 21 / 2048"
  shows "format_3f (round_double x) = ''0.010''"
proof -
  have a: "round_double (5 / 512) = 5 / 512" using round_double_dyadic [of 5 9] by simp
  have b: "round_double (21 / 2048) = 21 / 2048" using round_double_dyadic [of 21 11] by simp
  have r: "5 / 512 \<le> round_double x \<and> round_double x \<le> 21 / 2048"
    using assms by (rule round_double_between [OF a b])
  have "thousandths (round_double x) = 10"
    unfolding thousandths_def using r by (intro rhe_between) simp_all
  then have "format_3f (round_double x) = str_nat (10 div 1000) @ ''.'' @ pad3 (10 mod 1000)"
    using r by (intro format_3f_value) simp_all
  then show ?thesis by (simp add: str_nat.simps pad3_def digit_char_def)
qed

lemma rate_text_500: "format_3f (round_double (1 / 2)) = ''0.500''"
proof -
  have a: "round_double (1 / 2) = 1 / 2" using round_double_dyadic [of 1 1] by simp
  have "thousandths (1 / 2) = 500" unfolding thousandths_def by (rule rhe_between) simp_all
  then have "format_3f (1 / 2) = str_nat (500 div 1000) @ ''.'' @ pad3 (500 mod 1000)"
    by (intro format_3f_value) simp_all
  then show ?thesis by (simp add: a str_nat.simps pad3_def digit_char_def)
qed

lemma tsp_example_rates:
  "format_3f (round_double (1 / float_add 98 1)) = ''0.010''"
  "format_3f (round_double (1 / float_add 99 1)) = ''0.010''"
  "format_3f (round_double (1 / float_add 1 1)) = ''0.500''"
proof -
  have "float_add 98 1 = 99" "float_add 99 1 = 100" "float_add 1 1 = 2"
    by (simp_all add: float_add_def round_double_numeral)
  then show "format_3f (round_double (1 / float_add 98 1)) = ''0.010''"
    "format_3f (round_double (1 / float_add 99 1)) = ''0.010''"
    "format_3f (round_double (1 / float_add 1 1)) = ''0.500''"
    using rate_text_010 [of "1 / 99"] rate_text_010 [of "1 / 100"] rate_text_500 by simp_all
qed

lemma tsp_example_text:
  "create_tsp_crn (tsp_example\<lparr>distance_matrix := [[0, 98, 99], [98, 0, 1], [99, 1, 0]]\<rparr>) 3 =
     Inr (unlines
       ['''',
        ''-- TSP Chemical Reaction Network for 3 cities'',
        ''-- Each city is represented as a molecular species'',
        '''',
        ''-- City selection reactions'',
        ''city_0 -> city_1, rate=0.010'',
        ''city_0 -> city_2, rate=0.010'',
        ''city_1 -> city_0, rate=0.010'',
        ''city_1 -> city_2, rate=0.500'',
        ''city_2 -> city_0, rate=0.010'',
        ''city_2 -> city_1, rate=0.500''])"
proof -
  let ?m = "[[0, 98, 99], [98, 0, 1], [99, 1, 0 :: real]]"
  have e: "edge_rate ?m 0 (Suc 0) = Inr (round_double (1 / float_add 98 1))"
    "edge_rate ?m 0 (Suc (Suc 0)) = Inr (round_double (1 / float_add 99 1))"
    "edge_rate ?m (Suc 0) 0 = Inr (round_double (1 / float_add 98 1))"
    "edge_rate ?m (Suc 0) (Suc (Suc 0)) = Inr (round_double (1 / float_add 1 1))"
    "edge_rate ?m (Suc (Suc 0)) 0 = Inr (round_double (1 / float_add 99 1))"
    "edge_rate ?m (Suc (Suc 0)) (Suc 0) = Inr (round_double (1 / float_add 1 1))"
    by (simp_all add: edge_rate_def matrix_entry_in_range tsp_rate_value)
  have s: "str_nat 0 = ''0''" "str_nat (Suc 0) = ''1''" "str_nat (Suc (Suc 0)) = ''2''"
    "str_int 3 = ''3''"
    by (simp_all add: str_nat.simps str_int_def digit_char_def)
  have three: "nat 3 = Suc (Suc (Suc 0))" by simp
  show ?thesis
    unfolding create_tsp_crn_def three
    by (simp add: tsp_example_def upt_conv_Cons e tsp_reaction_def s tsp_example_rates
          tsp_header_def unlines_def)
qed

lemma tsp_example_lines:
  "map_sum id split_lines
     (create_tsp_crn (tsp_example\<lparr>distance_matrix := [[0, 98, 99], [98, 0, 1], [99, 1, 0]]\<rparr>) 3) =
   Inr ['''',
        ''-- TSP Chemical Reaction Network for 3 cities'',
        ''-- Each city is represented as a molecular species'',
        '''',
        ''-- City selection reactions'',
        ''city_0 -> city_1, rate=0.010'',
        ''city_0 -> city_2, rate=0.010'',
        ''city_1 -> city_0, rate=0.010'',
        ''city_1 -> city_2, rate=0.500'',
        ''city_2 -> city_0, rate=0.010'',
        ''city_2 -> city_1, rate=0.500'']"
  unfolding tsp_example_text by (simp, rule split_lines_unlines) simp

theorem tsp_rate_antitone_witness:
  "\<exists>r1 r2.
     edge_rate [[0, 98, 99], [98, 0, 1], [99, 1, 0]] 1 2 = Inr r1 \<and>
     edge_rate [[0, 98, 99], [98, 0, 1], [99, 1, 0]] 0 1 = Inr r2 \<and>
     tsp_reaction 1 2 r1 \<in> set (split_lines (unlines
       ['''',
        ''-- TSP Chemical Reaction Network for 3 cities'',
        ''-- Each city is represented as a molecular species'',
        '''',
        ''-- City selection reactions'',
        ''city_0 -> city_1, rate=0.010'',
        ''city_0 -> city_2, rate=0.010'',
        ''city_1 -> city_0, rate=0.010'',
        ''city_1 -> city_2, rate=0.500'',
        ''city_2 -> city_0, rate=0.010'',
        ''city_2 -> city_1, rate=0.500''])) \<and>
     r2 \<le> r1 \<and> thousandths r2 \<le> thousandths r1"
proof -
  have n: "int (length (cities tsp_example)) = 3" by (simp add: tsp_example_def)
  have tx: "create_tsp_crn (tsp_example\<lparr>distance_matrix := [[0, 98, 99], [98, 0, 1], [99, 1, 0]]\<rparr>)
      (int (length (cities tsp_example))) = Inr (unlines
       ['''',
        ''-- TSP Chemical Reaction Network for 3 cities'',
        ''-- Each city is represented as a molecular species'',
        '''',
        ''-- City selection reactions'',
        ''city_0 -> city_1, rate=0.010'',
        ''city_0 -> city_2, rate=0.010'',
        ''city_1 -> city_0, rate=0.010'',
        ''city_1 -> city_2, rate=0.500'',
        ''city_2 -> city_0, rate=0.010'',
        ''city_2 -> city_1, rate=0.500''])"
    unfolding n by (rule tsp_example_text)
  have i: "(1::nat) < length (cities tsp_example)" "(2::nat) < length (cities tsp_example)"
    "(0::nat) < length (cities tsp_example)" "(1::nat) \<noteq> 2" "(0::nat) \<noteq> 1"
    by (simp_all add: tsp_example_def)
  show ?thesis
    using tsp_rate_antitone [OF tsp_example_matrix tx i(1) i(2) i(4) i(3) i(1) i(5)]
    by simp blast
qed

theorem tsp_rate_counterexample:
  "calculate_distance_matrix tsp_example =
     Inr (tsp_example\<lparr>distance_matrix := [[0, 98, 99], [98, 0, 1], [99, 1, 0]]\<rparr>) \<and>
   map_sum id split_lines
     (create_tsp_crn (tsp_example\<lparr>distance_matrix := [[0, 98, 99], [98, 0, 1], [99, 1, 0]]\<rparr>) 3) =
   Inr ['''',
        ''-- TSP Chemical Reaction Network for 3 cities'',
        ''-- Each city is represented as a molecular species'',
        '''',
        ''-- City selection reactions'',
        ''city_0 -> city_1, rate=0.010'',
        ''city_0 -> city_2, rate=0.010'',
        ''city_1 -> city_0, rate=0.010'',
        ''city_1 -> city_2, rate=0.500'',
        ''city_2 -> city_0, rate=0.010'',
        ''city_2 -> city_1, rate=0.500'']"
  using tsp_example_matrix tsp_example_lines by simp

subsection \<open>Rates are positive\<close>

lemma sat_instance_example:
  "generate_3sat_instance 3 (Some 1) [] =
     Inr (\<lparr>variables = [''x0'', ''x1'', ''x2''],
           clauses = [[(0, True), (2, True), (1, True)]]\<rparr>, [])"
  by (simp add: generate_3sat_instance_def py_range_def upt_conv_Cons random_sample_def
        eval_nat_numeral randbelow_def random_choice_def str_int_def str_nat.simps digit_char_def)

lemma in_square_example: "in_square tsp_example"
  by (simp add: in_square_def tsp_example_def)

text \<open>
  Claim C7. Every reaction the encoders emit has a positive rate. Each line of the text
  that \<open>create_sat_crn\<close> returns for a generated instance is empty, a comment, or a
  reaction whose rate text is \<open>1.0\<close> or \<open>10.0\<close>. For cities of the square
  \<open>[0, 100] \<times> [0, 100]\<close> the distance matrix is computed and the text emitted without an
  error, and each of its lines is empty, a comment, or the reaction of a city pair whose
  rate is at least \<open>1/256\<close> (above 0.0005), is printed with at least 4 thousandths and so
  is never rendered as \<open>0.000\<close>.
\<close>

theorem encoder_rates_positive:
  "(generate_3sat_instance num_vars num_clauses g = Inr (b, g') \<longrightarrow>
      (\<exists>tx. create_sat_crn b = Inr tx \<and>
         (\<forall>l \<in> set (split_lines tx). l = [] \<or> is_comment_line l \<or> sat_rate_line l))) \<and>
   (in_square t \<longrightarrow>
      (\<exists>t' tx. calculate_distance_matrix t = Inr t' \<and>
         create_tsp_crn t' (int (length (cities t))) = Inr tx \<and>
         (\<forall>l \<in> set (split_lines tx). l = [] \<or> is_comment_line l \<or>
            (\<exists>i j r. l = tsp_reaction i j r \<and> edge_rate (distance_matrix t') i j = Inr r \<and>
               1 / 256 \<le> r \<and> 4 \<le> thousandths r \<and> format_3f r \<noteq> ''0.000''))))"
proof (intro conjI impI)
  assume gen: "generate_3sat_instance num_vars num_clauses g = Inr (b, g')"
  from create_sat_crn_total [OF generated_instance(1) [OF gen]] obtain tx where
    tx: "create_sat_crn b = Inr tx" by blast
  have "\<forall>l \<in> set (split_lines tx). l = [] \<or> is_comment_line l \<or> sat_rate_line l"
    using create_sat_crn_lines [OF generated_instance(2) [OF gen] tx] .
  then show "\<exists>tx. create_sat_crn b = Inr tx \<and>
         (\<forall>l \<in> set (split_lines tx). l = [] \<or> is_comment_line l \<or> sat_rate_line l)"
    using tx by blast
next
  assume sq: "in_square t"
  from calculate_distance_matrix_total [OF sq] obtain t' where
    t': "calculate_distance_matrix t = Inr t'" by blast
  from create_tsp_crn_total [OF t'] obtain tx where
    tx: "create_tsp_crn t' (int (length (cities t))) = Inr tx" by blast
  have "\<forall>l \<in> set (split_lines tx). l = [] \<or> is_comment_line l \<or>
            (\<exists>i j r. l = tsp_reaction i j r \<and> edge_rate (distance_matrix t') i j = Inr r \<and>
               1 / 256 \<le> r \<and> 4 \<le> thousandths r \<and> format_3f r \<noteq> ''0.000'')"
  proof
    fix l assume "l \<in> set (split_lines tx)"
    then consider "l = []" | "is_comment_line l"
      | i j where "i < length (cities t)" "j < length (cities t)"
          "l = tsp_reaction i j (round_double (1 / float_add (distance_matrix t' ! i ! j) 1))"
      using computed_text_lines(1) [OF t' tx] by blast
    then show "l = [] \<or> is_comment_line l \<or>
            (\<exists>i j r. l = tsp_reaction i j r \<and> edge_rate (distance_matrix t') i j = Inr r \<and>
               1 / 256 \<le> r \<and> 4 \<le> thousandths r \<and> format_3f r \<noteq> ''0.000'')"
    proof cases
      case 1
      then show ?thesis by simp
    next
      case 2
      then show ?thesis by simp
    next
      case 3
      let ?r = "round_double (1 / float_add (distance_matrix t' ! i ! j) 1)"
      have e: "edge_rate (distance_matrix t') i j = Inr ?r"
        using computed_entry(3) [OF t' 3(1,2)] .
      have d: "0 \<le> distance_matrix t' ! i ! j" "distance_matrix t' ! i ! j \<le> 142"
        using computed_entry(2) [OF t' 3(1,2)] computed_entry(4) [OF t' 3(1,2) sq] by simp_all
      have lo: "1 / 256 \<le> ?r" using tsp_rate_lower [OF d] by simp
      have th: "4 \<le> thousandths ?r" using lo by (rule thousandths_lower)
      have "0 \<le> ?r" using lo by simp
      moreover have "0 < thousandths ?r" using th by simp
      ultimately have "format_3f ?r \<noteq> ''0.000''" by (rule format_3f_not_zero)
      then show ?thesis using 3(3) e lo th by blast
    qed
  qed
  then show "\<exists>t' tx. calculate_distance_matrix t = Inr t' \<and>
         create_tsp_crn t' (int (length (cities t))) = Inr tx \<and>
         (\<forall>l \<in> set (split_lines tx). l = [] \<or> is_comment_line l \<or>
            (\<exists>i j r. l = tsp_reaction i j r \<and> edge_rate (distance_matrix t') i j = Inr r \<and>
               1 / 256 \<le> r \<and> 4 \<le> thousandths r \<and> format_3f r \<noteq> ''0.000''))"
    using t' tx by blast
qed

theorem encoder_rates_positive_witness:
  "generate_3sat_instance 3 (Some 1) [] =
     Inr (\<lparr>variables = [''x0'', ''x1'', ''x2''],
           clauses = [[(0, True), (2, True), (1, True)]]\<rparr>, []) \<and>
   (\<exists>tx. create_sat_crn \<lparr>variables = [''x0'', ''x1'', ''x2''],
            clauses = [[(0, True), (2, True), (1, True)]]\<rparr> = Inr tx \<and>
      (\<forall>l \<in> set (split_lines tx). l = [] \<or> is_comment_line l \<or> sat_rate_line l)) \<and>
   in_square tsp_example \<and>
   (\<exists>t' tx. calculate_distance_matrix tsp_example = Inr t' \<and>
      create_tsp_crn t' (int (length (cities tsp_example))) = Inr tx \<and>
      (\<forall>l \<in> set (split_lines tx). l = [] \<or> is_comment_line l \<or>
         (\<exists>i j r. l = tsp_reaction i j r \<and> edge_rate (distance_matrix t') i j = Inr r \<and>
            1 / 256 \<le> r \<and> 4 \<le> thousandths r \<and> format_3f r \<noteq> ''0.000'')))"
  using encoder_rates_positive [of 3 "Some 1" "[]"
      "\<lparr>variables = [''x0'', ''x1'', ''x2''], clauses = [[(0, True), (2, True), (1, True)]]\<rparr>"
      "[]" tsp_example]
    sat_instance_example in_square_example
  by simp

subsection \<open>The emitted text is CRN text\<close>

lemma sat_rate_line_reaction: "sat_rate_line l \<Longrightarrow> is_reaction_line l"
  using sat_rate_line_ok by blast

text \<open>
  Claim C6. The encoders emit only well-formed CRN text. For an instance that
  \<open>generate_3sat_instance\<close> produced, \<open>create_sat_crn\<close> returns a text; for cities with
  coordinates in the square \<open>[0, 100] \<times> [0, 100]\<close> (finite floats, as \<open>generate_cities\<close>
  draws them) the distance matrix is computed and \<open>create_tsp_crn\<close> returns a text. Every
  line of either text is blank, a comment starting with \<open>--\<close>, or a reaction
  \<open>reactant[+reactant]* -> product[+product]*, rate=<float>\<close> whose species names match
  \<open>[A-Za-z_][A-Za-z0-9_]*\<close>.
\<close>

theorem encoders_emit_crn_text:
  "(generate_3sat_instance num_vars num_clauses g = Inr (b, g') \<longrightarrow>
      (\<exists>tx. create_sat_crn b = Inr tx \<and> (\<forall>l \<in> set (split_lines tx). crn_line_ok l))) \<and>
   (in_square t \<longrightarrow>
      (\<exists>t' tx. calculate_distance_matrix t = Inr t' \<and>
         create_tsp_crn t' (int (length (cities t))) = Inr tx \<and>
         (\<forall>l \<in> set (split_lines tx). crn_line_ok l)))"
proof (intro conjI impI)
  assume gen: "generate_3sat_instance num_vars num_clauses g = Inr (b, g')"
  from create_sat_crn_total [OF generated_instance(1) [OF gen]] obtain tx where
    tx: "create_sat_crn b = Inr tx" by blast
  have "\<forall>l \<in> set (split_lines tx). crn_line_ok l"
  proof
    fix l assume "l \<in> set (split_lines tx)"
    then have "l = [] \<or> is_comment_line l \<or> sat_rate_line l"
      using create_sat_crn_lines [OF generated_instance(2) [OF gen] tx] by blast
    then show "crn_line_ok l"
      using sat_rate_line_reaction [of l] by (auto simp: crn_line_ok_def is_blank_line_def)
  qed
  then show "\<exists>tx. create_sat_crn b = Inr tx \<and> (\<forall>l \<in> set (split_lines tx). crn_line_ok l)"
    using tx by blast
next
  assume sq: "in_square t"
  from calculate_distance_matrix_total [OF sq] obtain t' where
    t': "calculate_distance_matrix t = Inr t'" by blast
  from create_tsp_crn_total [OF t'] obtain tx where
    tx: "create_tsp_crn t' (int (length (cities t))) = Inr tx" by blast
  have "\<forall>l \<in> set (split_lines tx). crn_line_ok l"
  proof
    fix l assume "l \<in> set (split_lines tx)"
    then have "l = [] \<or> is_comment_line l \<or> (\<exists>i j r. l = tsp_reaction i j r)"
      using computed_text_lines(1) [OF t' tx] by blast
    then show "crn_line_ok l"
      using tsp_reaction_is_reaction by (auto simp: crn_line_ok_def is_blank_line_def)
  qed
  then show "\<exists>t' tx. calculate_distance_matrix t = Inr t' \<and>
         create_tsp_crn t' (int (length (cities t))) = Inr tx \<and>
         (\<forall>l \<in> set (split_lines tx). crn_line_ok l)"
    using t' tx by blast
qed

theorem encoders_emit_crn_text_witness:
  "generate_3sat_instance 3 (Some 1) [] =
     Inr (\<lparr>variables = [''x0'', ''x1'', ''x2''],
           clauses = [[(0, True), (2, True), (1, True)]]\<rparr>, []) \<and>
   (\<exists>tx. create_sat_crn \<lparr>variables = [''x0'', ''x1'', ''x2''],
            clauses = [[(0, True), (2, True), (1, True)]]\<rparr> = Inr tx \<and>
      (\<forall>l \<in> set (split_lines tx). crn_line_ok l)) \<and>
   in_square tsp_example \<and>
   (\<exists>t' tx. calculate_distance_matrix tsp_example = Inr t' \<and>
      create_tsp_crn t' (int (length (cities tsp_example))) = Inr tx \<and>
      (\<forall>l \<in> set (split_lines tx). crn_line_ok l))"
  using encoders_emit_crn_text [of 3 "Some 1" "[]"
      "\<lparr>variables = [''x0'', ''x1'', ''x2''], clauses = [[(0, True), (2, True), (1, True)]]\<rparr>"
      "[]" tsp_example]
    sat_instance_example in_square_example
  by simp

subsection \<open>Generated cities\<close>

lemma random_float_range: "0 \<le> fst (random_float g) \<and> fst (random_float g) < 1"
proof -
  obtain r g1 where rb: "randbelow (2 ^ 53) g = (r, g1)" by (cases "randbelow (2 ^ 53) g")
  have rf: "random_float g = (real r / 2 ^ 53, g1)" unfolding random_float_def rb by simp
  have "fst (randbelow (2 ^ 53) g) < 2 ^ 53" by (rule randbelow_less) simp
  then have "r < 2 ^ 53" by (simp only: rb fst_conv)
  then have "real r < 2 ^ 53" by (metis of_nat_less_iff of_nat_numeral of_nat_power)
  then show ?thesis unfolding rf by simp
qed

lemma random_uniform_range:
  "0 \<le> fst (random_uniform 0 100 g) \<and> fst (random_uniform 0 100 g) \<le> 100"
proof -
  obtain u g1 where rf: "random_float g = (u, g1)" by (cases "random_float g")
  have u: "0 \<le> u" "u < 1" using random_float_range [of g] by (simp_all add: rf)
  have "round_double 0 \<le> round_double (100 * u)" "round_double (100 * u) \<le> round_double 100"
    using u by (auto intro!: round_double_mono)
  then have p: "0 \<le> float_mul (100 - 0) u" "float_mul (100 - 0) u \<le> 100"
    by (simp_all add: float_mul_def round_double_zero round_double_100)
  have "round_double 0 \<le> float_add 0 (float_mul (100 - 0) u)"
    "float_add 0 (float_mul (100 - 0) u) \<le> round_double 100"
    unfolding float_add_def using p by (auto intro!: round_double_mono)
  then show ?thesis by (simp add: random_uniform_def rf round_double_zero round_double_100)
qed

lemma generate_cities_in_square:
  "generate_cities n g = (cs, g') \<Longrightarrow> length cs = n \<and> in_square (t\<lparr>cities := cs\<rparr>)"
proof (induction n arbitrary: g cs g')
  case 0
  then show ?case by (simp add: in_square_def)
next
  case (Suc n)
  obtain x g1 where x: "random_uniform 0 100 g = (x, g1)" by (cases "random_uniform 0 100 g")
  obtain y g2 where y: "random_uniform 0 100 g1 = (y, g2)" by (cases "random_uniform 0 100 g1")
  obtain rest g3 where r: "generate_cities n g2 = (rest, g3)" by (cases "generate_cities n g2")
  have cs: "cs = (x, y) # rest" and "g' = g3" using Suc.prems by (simp_all add: x y r)
  have "0 \<le> x \<and> x \<le> 100" using random_uniform_range [of g] by (simp add: x)
  moreover have "0 \<le> y \<and> y \<le> 100" using random_uniform_range [of g1] by (simp add: y)
  ultimately show ?case using Suc.IH [OF r] by (simp add: cs in_square_def)
qed

subsection \<open>The distance matrix on every float value\<close>

lemma overflow_minus: "overflow (- r) = ieee_neg (overflow r)"
  by (simp add: overflow_def)

lemma ieee_neg_neg: "ieee_neg (ieee_neg x) = x"
  by (cases x) simp_all

lemma ieee_neg_add: "ieee_add (ieee_neg x) (ieee_neg y) = ieee_neg (ieee_add x y)"
proof (cases x; cases y)
  fix a b assume "x = Finite a" "y = Finite b"
  then show ?thesis
    using round_double_minus [of "a + b"] overflow_minus [of "round_double (a + b)"] by simp
qed simp_all

lemma ieee_sub_swap: "ieee_sub y x = ieee_neg (ieee_sub x y)"
  using ieee_neg_add [of x "ieee_neg y"]
  by (cases x; cases y) (simp_all add: ieee_sub_def ieee_neg_neg add.commute)

lemma py_square_neg: "py_square p (ieee_neg x) = py_square p x"
  by (cases x) simp_all

lemma distance_ieee_sym: "distance_ieee p c2 c1 = distance_ieee p c1 c2"
  unfolding distance_ieee_def
  by (simp only: ieee_sub_swap [of "fst c2" "fst c1"] ieee_sub_swap [of "snd c2" "snd c1"]
        py_square_neg cong: sum.case_cong)

text \<open>A distance is NaN, \<open>inf\<close> or a non-negative finite float.\<close>

lemma py_sqrt_value: "py_sqrt s = Inr d \<Longrightarrow> d = NaN \<or> float_ge d (Finite 0)"
  by (cases s) (auto simp: round_double_nonneg split: if_splits)

lemma distance_ieee_value: "distance_ieee p c1 c2 = Inr d \<Longrightarrow> d = NaN \<or> float_ge d (Finite 0)"
  unfolding distance_ieee_def by (auto split: sum.splits dest: py_sqrt_value)

text \<open>Between cities of finite coordinates no operation meets NaN.\<close>

lemma overflow_not_nan: "overflow r \<noteq> NaN"
  by (simp add: overflow_def)

lemma py_square_finite:
  assumes "py_square p (overflow r) = Inr s"
  shows "s = PlusInf \<or> is_finite s"
  using assms by (auto simp: overflow_def Let_def split: if_splits)

lemma ieee_add_squares:
  assumes "a = PlusInf \<or> is_finite a" and "b = PlusInf \<or> is_finite b"
  shows "ieee_add a b \<noteq> NaN"
  using assms by (cases a; cases b) (simp_all add: overflow_not_nan)

lemma py_sqrt_not_nan: "py_sqrt s = Inr d \<Longrightarrow> s \<noteq> NaN \<Longrightarrow> d \<noteq> NaN"
  by (cases s) (auto split: if_splits)

lemma distance_ieee_finite:
  assumes "distance_ieee p c1 c2 = Inr d" and "finite_city c1" and "finite_city c2"
  shows "d \<noteq> NaN"
proof -
  obtain x1 y1 x2 y2 where c: "c1 = (Finite x1, Finite y1)" "c2 = (Finite x2, Finite y2)"
    using assms(2,3) unfolding finite_city_def
    by (cases c1; cases c2; cases "fst c1"; cases "snd c1"; cases "fst c2"; cases "snd c2") simp_all
  from assms(1) obtain dx dy where
    dx: "py_square p (overflow (round_double (x1 + - x2))) = Inr dx" and
    dy: "py_square p (overflow (round_double (y1 + - y2))) = Inr dy" and
    d: "py_sqrt (ieee_add dx dy) = Inr d"
    by (auto simp: distance_ieee_def ieee_sub_def c split: sum.splits)
  have "ieee_add dx dy \<noteq> NaN"
    using py_square_finite [OF dx] py_square_finite [OF dy] by (rule ieee_add_squares)
  with d show ?thesis by (rule py_sqrt_not_nan)
qed

lemma float_eq_refl: "x \<noteq> NaN \<Longrightarrow> float_eq x x"
  by (cases x) simp_all

lemma float_ge_zero: "x = NaN \<or> float_ge x (Finite 0) \<Longrightarrow> x \<noteq> NaN \<Longrightarrow> float_ge x (Finite 0)"
  by simp

text \<open>The loops on every float value: the same invariants as on finite floats.\<close>

lemma fill_row_ieee_spec:
  assumes "fill_row_ieee p cs i js m = Inr m'" and "i < length m"
    and "\<forall>j \<in> set js. j < length (m ! i)"
  shows "length m' = length m \<and> (\<forall>k < length m. length (m' ! k) = length (m ! k)) \<and>
         (\<forall>k < length m. \<forall>j < length (m ! k).
            (if k = i \<and> j \<in> set js \<and> j \<noteq> i then distance_ieee p (cs ! i) (cs ! j) = Inr (m' ! k ! j)
             else m' ! k ! j = m ! k ! j))"
  using assms
proof (induction js arbitrary: m)
  case Nil
  then show ?case by simp
next
  case (Cons j js)
  show ?case
  proof (cases "i = j")
    case True
    then have "fill_row_ieee p cs i js m = Inr m'" using Cons.prems(1) by simp
    from Cons.IH [OF this Cons.prems(2)] Cons.prems(3) True show ?thesis by auto
  next
    case False
    then obtain d where d: "distance_ieee p (cs ! i) (cs ! j) = Inr d"
      and rec: "fill_row_ieee p cs i js (m[i := (m ! i)[j := d]]) = Inr m'"
      using Cons.prems(1) by (auto split: sum.splits)
    let ?m1 = "m[i := (m ! i)[j := d]]"
    have l1: "i < length ?m1" using Cons.prems(2) by simp
    have r1: "\<forall>j \<in> set js. j < length (?m1 ! i)" using Cons.prems(2,3) by simp
    have jl: "j < length (m ! i)" using Cons.prems(3) by simp
    from Cons.IH [OF rec l1 r1]
    have ih: "length m' = length ?m1"
      "\<forall>k < length ?m1. length (m' ! k) = length (?m1 ! k)"
      "\<forall>k < length ?m1. \<forall>j' < length (?m1 ! k).
            (if k = i \<and> j' \<in> set js \<and> j' \<noteq> i then distance_ieee p (cs ! i) (cs ! j') = Inr (m' ! k ! j')
             else m' ! k ! j' = ?m1 ! k ! j')"
      by simp_all
    have len: "length m' = length m" using ih(1) by simp
    have rows: "\<forall>k < length m. length (m' ! k) = length (m ! k)"
    proof (intro allI impI)
      fix k assume k: "k < length m"
      then have "length (m' ! k) = length (?m1 ! k)" using ih(2) by simp
      also have "\<dots> = length (m ! k)" using k by (cases "k = i") simp_all
      finally show "length (m' ! k) = length (m ! k)" .
    qed
    have ent: "\<forall>k < length m. \<forall>j' < length (m ! k).
            (if k = i \<and> j' \<in> set (j # js) \<and> j' \<noteq> i then distance_ieee p (cs ! i) (cs ! j') = Inr (m' ! k ! j')
             else m' ! k ! j' = m ! k ! j')"
    proof (intro allI impI)
      fix k j' assume k: "k < length m" and j': "j' < length (m ! k)"
      have k1: "k < length ?m1" using k by simp
      have j1: "j' < length (?m1 ! k)" using k j' by (cases "k = i") simp_all
      from ih(3) k1 j1 have step:
        "(if k = i \<and> j' \<in> set js \<and> j' \<noteq> i then distance_ieee p (cs ! i) (cs ! j') = Inr (m' ! k ! j')
             else m' ! k ! j' = ?m1 ! k ! j')" by blast
      show "(if k = i \<and> j' \<in> set (j # js) \<and> j' \<noteq> i then distance_ieee p (cs ! i) (cs ! j') = Inr (m' ! k ! j')
             else m' ! k ! j' = m ! k ! j')"
      proof (cases "k = i \<and> j' \<in> set js \<and> j' \<noteq> i")
        case True
        then show ?thesis using step by simp
      next
        case n1: False
        then have eq: "m' ! k ! j' = ?m1 ! k ! j'" using step by simp
        show ?thesis
        proof (cases "k = i \<and> j' = j")
          case True
          then have "?m1 ! k ! j' = d" using k jl by simp
          then show ?thesis using True eq d False by simp
        next
          case n2: False
          then have "?m1 ! k ! j' = m ! k ! j'" using k by (cases "k = i") auto
          then show ?thesis using n1 n2 eq by auto
        qed
      qed
    qed
    show ?thesis using len rows ent by blast
  qed
qed

lemma fill_rows_ieee_spec:
  assumes "fill_rows_ieee p cs rows n m = Inr m'" and "length m = n"
    and "\<forall>k < n. length (m ! k) = n" and "\<forall>i \<in> set rows. i < n"
  shows "length m' = n \<and> (\<forall>k < n. length (m' ! k) = n) \<and>
         (\<forall>k < n. \<forall>j < n.
            (if k \<in> set rows \<and> j \<noteq> k then distance_ieee p (cs ! k) (cs ! j) = Inr (m' ! k ! j)
             else m' ! k ! j = m ! k ! j))"
  using assms
proof (induction rows arbitrary: m)
  case Nil
  then show ?case by simp
next
  case (Cons i rows)
  from Cons.prems(1) obtain m1 where
    row: "fill_row_ieee p cs i [0..<n] m = Inr m1" and rec: "fill_rows_ieee p cs rows n m1 = Inr m'"
    by (auto split: sum.splits)
  have i: "i < n" using Cons.prems(4) by simp
  have pre: "i < length m" "\<forall>j \<in> set [0..<n]. j < length (m ! i)"
    using i Cons.prems(2,3) by simp_all
  from fill_row_ieee_spec [OF row pre]
  have s1: "length m1 = length m" "\<forall>k < length m. length (m1 ! k) = length (m ! k)"
    "\<forall>k < length m. \<forall>j < length (m ! k).
       (if k = i \<and> j \<in> set [0..<n] \<and> j \<noteq> i then distance_ieee p (cs ! i) (cs ! j) = Inr (m1 ! k ! j)
        else m1 ! k ! j = m ! k ! j)"
    by simp_all
  have l1: "length m1 = n" using s1(1) Cons.prems(2) by simp
  have r1: "\<forall>k < n. length (m1 ! k) = n" using s1(2) Cons.prems(2,3) by simp
  have rest: "\<forall>i \<in> set rows. i < n" using Cons.prems(4) by simp
  from Cons.IH [OF rec l1 r1 rest]
  have ih: "length m' = n" "\<forall>k < n. length (m' ! k) = n"
    "\<forall>k < n. \<forall>j < n.
       (if k \<in> set rows \<and> j \<noteq> k then distance_ieee p (cs ! k) (cs ! j) = Inr (m' ! k ! j)
        else m' ! k ! j = m1 ! k ! j)"
    by simp_all
  have "\<forall>k < n. \<forall>j < n.
       (if k \<in> set (i # rows) \<and> j \<noteq> k then distance_ieee p (cs ! k) (cs ! j) = Inr (m' ! k ! j)
        else m' ! k ! j = m ! k ! j)"
  proof (intro allI impI)
    fix k j assume k: "k < n" and j: "j < n"
    have a: "(if k \<in> set rows \<and> j \<noteq> k then distance_ieee p (cs ! k) (cs ! j) = Inr (m' ! k ! j)
        else m' ! k ! j = m1 ! k ! j)" using ih(3) k j by blast
    have "k < length m" "j < length (m ! k)" using k j Cons.prems(2,3) by simp_all
    then have b: "(if k = i \<and> j \<in> set [0..<n] \<and> j \<noteq> i then distance_ieee p (cs ! i) (cs ! j) = Inr (m1 ! k ! j)
        else m1 ! k ! j = m ! k ! j)" using s1(3) by blast
    show "(if k \<in> set (i # rows) \<and> j \<noteq> k then distance_ieee p (cs ! k) (cs ! j) = Inr (m' ! k ! j)
        else m' ! k ! j = m ! k ! j)"
      using a b j by (auto split: if_splits)
  qed
  then show ?case using ih(1,2) by blast
qed


lemma calculate_distance_matrix_ieee_spec:
  assumes "calculate_distance_matrix_ieee p cs = Inr m"
  shows "length m = length cs \<and>
         (\<forall>i < length cs. length (m ! i) = length cs \<and>
            (\<forall>j < length cs.
               (if j \<noteq> i then distance_ieee p (cs ! i) (cs ! j) = Inr (m ! i ! j)
                else m ! i ! j = Finite 0)))"
proof -
  let ?n = "length cs"
  let ?m0 = "replicate ?n (replicate ?n (Finite 0))"
  have fr: "fill_rows_ieee p cs [0..<?n] ?n ?m0 = Inr m"
    using assms by (simp add: calculate_distance_matrix_ieee_def Let_def)
  have "length ?m0 = ?n" "\<forall>k < ?n. length (?m0 ! k) = ?n" "\<forall>i \<in> set [0..<?n]. i < ?n"
    by simp_all
  from fill_rows_ieee_spec [OF fr this]
  have s: "length m = ?n" "\<forall>k < ?n. length (m ! k) = ?n"
    "\<forall>k < ?n. \<forall>j < ?n.
       (if k \<in> set [0..<?n] \<and> j \<noteq> k then distance_ieee p (cs ! k) (cs ! j) = Inr (m ! k ! j)
        else m ! k ! j = ?m0 ! k ! j)"
    by simp_all
  have "\<forall>i < ?n. length (m ! i) = ?n \<and>
            (\<forall>j < ?n.
               (if j \<noteq> i then distance_ieee p (cs ! i) (cs ! j) = Inr (m ! i ! j)
                else m ! i ! j = Finite 0))"
  proof (intro allI impI conjI)
    fix i assume i: "i < ?n"
    show "length (m ! i) = ?n" using s(2) i by simp
    fix j assume j: "j < ?n"
    have "(if i \<in> set [0..<?n] \<and> j \<noteq> i then distance_ieee p (cs ! i) (cs ! j) = Inr (m ! i ! j)
        else m ! i ! j = ?m0 ! i ! j)" using s(3) i j by blast
    then show "(if j \<noteq> i then distance_ieee p (cs ! i) (cs ! j) = Inr (m ! i ! j)
                else m ! i ! j = Finite 0)" using i j by (auto split: if_splits)
  qed
  then show ?thesis using s(1) by simp
qed

text \<open>
  Claim C9, for cities of finite coordinates. When \<open>calculate_distance_matrix\<close> returns on a
  list of \<open>n\<close> cities, the matrix has \<open>n\<close> rows of \<open>n\<close> entries, the diagonal entry compares
  equal to 0, the entries at \<open>(i, j)\<close> and \<open>(j, i)\<close> are the same float, and an entry is NaN
  or compares \<open>>= 0\<close>. When every coordinate is finite no entry is NaN: the entries at
  \<open>(i, j)\<close> and \<open>(j, i)\<close> compare equal and every entry compares \<open>>= 0\<close>; an entry may be
  \<open>inf\<close>. This holds whatever the platform's \<open>pow\<close> returns.
\<close>

theorem distance_matrix_finite_cities:
  assumes "calculate_distance_matrix_ieee pow2 cs = Inr m"
    and "i < length cs" and "j < length cs"
  shows "length m = length cs \<and> length (m ! i) = length cs \<and>
         float_eq (m ! i ! i) (Finite 0) \<and>
         m ! i ! j = m ! j ! i \<and>
         (m ! i ! j = NaN \<or> float_ge (m ! i ! j) (Finite 0)) \<and>
         ((\<forall>c \<in> set cs. finite_city c) \<longrightarrow>
            float_eq (m ! i ! j) (m ! j ! i) \<and> float_ge (m ! i ! j) (Finite 0))"
proof -
  note spec = calculate_distance_matrix_ieee_spec [OF assms(1)]
  have len: "length m = length cs" "length (m ! i) = length cs" using spec assms(2) by simp_all
  have ij: "if j \<noteq> i then distance_ieee pow2 (cs ! i) (cs ! j) = Inr (m ! i ! j)
            else m ! i ! j = Finite 0"
    using spec assms(2,3) by blast
  have ji: "if i \<noteq> j then distance_ieee pow2 (cs ! j) (cs ! i) = Inr (m ! j ! i)
            else m ! j ! i = Finite 0"
    using spec assms(2,3) by blast
  have ii: "m ! i ! i = Finite 0" using spec assms(2) by (metis (full_types))
  have same: "m ! i ! j = m ! j ! i"
  proof (cases "i = j")
    case True
    then show ?thesis by simp
  next
    case False
    then have "Inr (m ! i ! j) = distance_ieee pow2 (cs ! i) (cs ! j)" using ij by simp
    also have "\<dots> = distance_ieee pow2 (cs ! j) (cs ! i)" by (rule distance_ieee_sym)
    also have "\<dots> = Inr (m ! j ! i)" using ji False by simp
    finally show ?thesis by simp
  qed
  have val: "m ! i ! j = NaN \<or> float_ge (m ! i ! j) (Finite 0)"
  proof (cases "i = j")
    case True
    then show ?thesis using ii by simp
  next
    case False
    then have "distance_ieee pow2 (cs ! i) (cs ! j) = Inr (m ! i ! j)" using ij by simp
    then show ?thesis by (rule distance_ieee_value)
  qed
  have fin: "float_eq (m ! i ! j) (m ! j ! i) \<and> float_ge (m ! i ! j) (Finite 0)"
    if all: "\<forall>c \<in> set cs. finite_city c"
  proof -
    have "m ! i ! j \<noteq> NaN"
    proof (cases "i = j")
      case True
      then show ?thesis using ii by simp
    next
      case False
      then have d: "distance_ieee pow2 (cs ! i) (cs ! j) = Inr (m ! i ! j)" using ij by simp
      have "finite_city (cs ! i)" "finite_city (cs ! j)" using all assms(2,3) by simp_all
      with d show ?thesis by (rule distance_ieee_finite)
    qed
    then show ?thesis using same val float_eq_refl [of "m ! i ! j"] by auto
  qed
  show ?thesis using len ii same val fin by simp
qed

text \<open>The matrix of two cities.\<close>

lemma two_cities_matrix:
  assumes "distance_ieee p a b = Inr d" and "distance_ieee p b a = Inr d'"
  shows "calculate_distance_matrix_ieee p [a, b] = Inr [[Finite 0, d], [d', Finite 0]]"
  using assms by (simp add: calculate_distance_matrix_ieee_def upt_conv_Cons eval_nat_numeral)

text \<open>Two cities at distance 5, with a correctly rounded \<open>pow\<close>.\<close>

lemma distance_ieee_example:
  "distance_ieee rounded_square (Finite 0, Finite 0) (Finite 3, Finite 4) = Inr (Finite 5)"
  by (simp add: distance_ieee_def ieee_sub_def rounded_square_def overflow_def
        round_double_minus round_double_numeral)

lemma distance_matrix_ieee_example:
  "calculate_distance_matrix_ieee rounded_square [(Finite 0, Finite 0), (Finite 3, Finite 4)] =
     Inr [[Finite 0, Finite 5], [Finite 5, Finite 0]]"
proof (rule two_cities_matrix)
  show "distance_ieee rounded_square (Finite 0, Finite 0) (Finite 3, Finite 4) = Inr (Finite 5)"
    by (rule distance_ieee_example)
  then show "distance_ieee rounded_square (Finite 3, Finite 4) (Finite 0, Finite 0) = Inr (Finite 5)"
    by (simp only: distance_ieee_sym)
qed

theorem distance_matrix_finite_cities_witness:
  "calculate_distance_matrix_ieee rounded_square [(Finite 0, Finite 0), (Finite 3, Finite 4)] =
     Inr [[Finite 0, Finite 5], [Finite 5, Finite 0]] \<and>
   finite_city (Finite 0, Finite 0) \<and> finite_city (Finite 3, Finite 4) \<and>
   float_eq ([[Finite 0, Finite 5], [Finite 5, Finite 0]] ! 0 ! 1)
     ([[Finite 0, Finite 5], [Finite 5, Finite 0]] ! 1 ! 0) \<and>
   float_eq ([[Finite 0, Finite 5], [Finite 5, Finite 0]] ! 0 ! 0) (Finite 0) \<and>
   float_ge ([[Finite 0, Finite 5], [Finite 5, Finite 0]] ! 0 ! 1) (Finite 0)"
proof -
  have n: "(0::nat) < length [(Finite 0, Finite 0), (Finite 3, Finite 4)]"
    "(1::nat) < length [(Finite 0, Finite 0), (Finite 3, Finite 4)]"
    by simp_all
  have f: "\<forall>c \<in> set [(Finite 0, Finite 0), (Finite 3, Finite 4)]. finite_city c"
    by (simp add: finite_city_def)
  show ?thesis
    using distance_matrix_finite_cities [OF distance_matrix_ieee_example n] f
      distance_matrix_ieee_example
    by simp
qed

text \<open>A NaN coordinate: the function returns, the entries off the diagonal are NaN, and NaN
  compares neither equal to itself nor \<open>>= 0\<close>.\<close>

theorem distance_matrix_nan_counterexample:
  "calculate_distance_matrix_ieee rounded_square [(NaN, Finite 0), (Finite 0, Finite 0)] =
     Inr [[Finite 0, NaN], [NaN, Finite 0]] \<and>
   \<not> float_eq ([[Finite 0, NaN], [NaN, Finite 0]] ! 0 ! 1) ([[Finite 0, NaN], [NaN, Finite 0]] ! 1 ! 0) \<and>
   \<not> float_ge ([[Finite 0, NaN], [NaN, Finite 0]] ! 0 ! 1) (Finite 0)"
proof -
  have "distance_ieee rounded_square (NaN, Finite 0) (Finite 0, Finite 0) = Inr NaN"
    by (simp add: distance_ieee_def ieee_sub_def round_double_zero overflow_def)
  moreover from this
  have "distance_ieee rounded_square (Finite 0, Finite 0) (NaN, Finite 0) = Inr NaN"
    by (simp only: distance_ieee_sym)
  ultimately have
    "calculate_distance_matrix_ieee rounded_square [(NaN, Finite 0), (Finite 0, Finite 0)] =
       Inr [[Finite 0, NaN], [NaN, Finite 0]]"
    by (rule two_cities_matrix)
  then show ?thesis by simp
qed

text \<open>Finite coordinates whose difference overflows: the entry is \<open>inf\<close>.\<close>

lemma distance_matrix_overflow_example:
  "calculate_distance_matrix_ieee rounded_square
     [(Finite (2 ^ 1023), Finite 0), (Finite (- (2 ^ 1023)), Finite 0)] =
     Inr [[Finite 0, PlusInf], [PlusInf, Finite 0]]"
proof (rule two_cities_matrix)
  have r: "round_double (2 ^ 1023 + 2 ^ 1023) = 2 ^ 1024"
  proof -
    have "(2::real) ^ 1023 + 2 ^ 1023 = 2 ^ 1024" by simp
    moreover have "round_double (2 ^ 1024) = 2 ^ 1024"
      using round_double_fix [of 1 1024] by (simp add: powr_realpow)
    ultimately show ?thesis by (simp only:)
  qed
  have a: "ieee_sub (Finite (2 ^ 1023)) (Finite (- (2 ^ 1023))) = PlusInf"
    unfolding ieee_sub_def
    by (simp only: ieee_neg.simps ieee_add.simps minus_minus r) (simp add: overflow_def)
  show d: "distance_ieee rounded_square (Finite (2 ^ 1023), Finite 0) (Finite (- (2 ^ 1023)), Finite 0)
             = Inr PlusInf"
    unfolding distance_ieee_def
    by (simp only: fst_conv snd_conv a) (simp add: ieee_sub_def overflow_def round_double_zero)
  then show "distance_ieee rounded_square (Finite (- (2 ^ 1023)), Finite 0) (Finite (2 ^ 1023), Finite 0)
             = Inr PlusInf"
    by (simp only: distance_ieee_sym)
qed

text \<open>
  On cities of the square \<open>[0, 100] \<times> [0, 100]\<close> nothing overflows, and with a correctly
  rounded \<open>pow\<close> the matrix on every float value is the matrix of the finite model.
\<close>

lemma py_square_embed:
  "py_square rounded_square (Finite u) =
     (case float_square u of Inl e \<Rightarrow> Inl e | Inr s \<Rightarrow> Inr (Finite s))"
proof -
  have "\<bar>u\<bar> * \<bar>u\<bar> = u * u" by simp
  then have r: "rounded_square \<bar>u\<bar> = round_double (u * u)" by (simp only: rounded_square_def)
  have one: "\<bar>u\<bar> = 1 \<Longrightarrow> round_double (u * u) = 1"
    using \<open>\<bar>u\<bar> * \<bar>u\<bar> = u * u\<close> round_double_one by (metis mult_1)
  show ?thesis
    by (auto simp: float_square_def r Let_def round_double_zero one)
qed

lemma overflow_small: "\<bar>r\<bar> \<le> 20000 \<Longrightarrow> overflow r = Finite r"
proof -
  assume a: "\<bar>r\<bar> \<le> 20000"
  have "(20000::real) < 2 ^ 1024" by simp
  then have "\<not> 2 ^ 1024 \<le> r" "\<not> r \<le> - (2 ^ 1024)" using a by linarith+
  then show ?thesis by (simp only: overflow_def if_False)
qed

lemma distance_embed:
  assumes "0 \<le> fst c1" "fst c1 \<le> 100" "0 \<le> snd c1" "snd c1 \<le> 100"
    and "0 \<le> fst c2" "fst c2 \<le> 100" "0 \<le> snd c2" "snd c2 \<le> 100"
    and "distance c1 c2 = Inr d"
  shows "distance_ieee rounded_square (embed_city c1) (embed_city c2) = Inr (Finite d)"
proof -
  have bx: "\<bar>float_sub (fst c1) (fst c2)\<bar> \<le> 100" by (rule float_sub_bounded [OF assms(1,2,5,6)])
  have by': "\<bar>float_sub (snd c1) (snd c2)\<bar> \<le> 100" by (rule float_sub_bounded [OF assms(3,4,7,8)])
  have sx: "ieee_sub (Finite (fst c1)) (Finite (fst c2)) = Finite (float_sub (fst c1) (fst c2))"
    using overflow_small [of "float_sub (fst c1) (fst c2)"] bx
    by (simp add: ieee_sub_def float_sub_def)
  have sy: "ieee_sub (Finite (snd c1)) (Finite (snd c2)) = Finite (float_sub (snd c1) (snd c2))"
    using overflow_small [of "float_sub (snd c1) (snd c2)"] by'
    by (simp add: ieee_sub_def float_sub_def)
  obtain dx where dx: "float_square (float_sub (fst c1) (fst c2)) = Inr dx" "0 \<le> dx" "dx \<le> 10000"
    using float_square_bounded [OF bx] by blast
  obtain dy where dy: "float_square (float_sub (snd c1) (snd c2)) = Inr dy" "0 \<le> dy" "dy \<le> 10000"
    using float_square_bounded [OF by'] by blast
  have "float_add dx dy \<le> round_double 20000"
    unfolding float_add_def using dx(3) dy(3) by (intro round_double_mono) simp
  then have hi: "float_add dx dy \<le> 20000" by (simp add: round_double_numeral)
  have lo: "0 \<le> float_add dx dy"
    unfolding float_add_def using dx(2) dy(2) by (intro round_double_nonneg) simp
  have "\<bar>float_add dx dy\<bar> \<le> 20000" using lo hi by simp
  then have ad: "ieee_add (Finite dx) (Finite dy) = Finite (float_add dx dy)"
    using overflow_small [of "float_add dx dy"] by (simp add: float_add_def)
  have d: "math_sqrt (float_add dx dy) = Inr d"
    using assms(9) by (simp add: distance_def dx(1) dy(1))
  have "py_sqrt (Finite (float_add dx dy)) = Inr (Finite d)"
    using d lo by (simp add: math_sqrt_def)
  then show ?thesis
    unfolding distance_ieee_def embed_city_def
    by (simp only: fst_conv snd_conv sx sy py_square_embed dx(1) dy(1) sum.case ad)
qed

lemma embed_update:
  "i < length m \<Longrightarrow>
   (map (map Finite) m)[i := (map (map Finite) m ! i)[j := Finite d]] =
     map (map Finite) (m[i := (m ! i)[j := d]])"
  by (simp add: map_update)

lemma fill_row_embed:
  assumes "fill_row cs i js m = Inr m'" and "i < length cs" and "\<forall>j \<in> set js. j < length cs"
    and "i < length m"
    and "\<forall>c \<in> set cs. 0 \<le> fst c \<and> fst c \<le> 100 \<and> 0 \<le> snd c \<and> snd c \<le> 100"
  shows "fill_row_ieee rounded_square (map embed_city cs) i js (map (map Finite) m) =
           Inr (map (map Finite) m')"
  using assms(1,3,4)
proof (induction js arbitrary: m)
  case Nil
  then show ?case by simp
next
  case (Cons j js)
  have rest: "\<forall>j \<in> set js. j < length cs" using Cons.prems(2) by simp
  show ?case
  proof (cases "i = j")
    case True
    then have "fill_row cs i js m = Inr m'" using Cons.prems(1) by simp
    from Cons.IH [OF this rest Cons.prems(3)] True show ?thesis by simp
  next
    case False
    then obtain d where d: "distance (cs ! i) (cs ! j) = Inr d"
      and rec: "fill_row cs i js (m[i := (m ! i)[j := d]]) = Inr m'"
      using Cons.prems(1) by (auto split: sum.splits)
    have j: "j < length cs" using Cons.prems(2) by simp
    have "cs ! i \<in> set cs" "cs ! j \<in> set cs" using assms(2) j by simp_all
    then have sq: "0 \<le> fst (cs ! i)" "fst (cs ! i) \<le> 100" "0 \<le> snd (cs ! i)" "snd (cs ! i) \<le> 100"
      "0 \<le> fst (cs ! j)" "fst (cs ! j) \<le> 100" "0 \<le> snd (cs ! j)" "snd (cs ! j) \<le> 100"
      using assms(5) by blast+
    have e: "distance_ieee rounded_square (map embed_city cs ! i) (map embed_city cs ! j) =
               Inr (Finite d)"
      using distance_embed [OF sq d] assms(2) j by simp
    have l1: "i < length (m[i := (m ! i)[j := d]])" using Cons.prems(3) by simp
    from Cons.IH [OF rec rest l1] show ?thesis
      using False e by (simp add: embed_update [OF Cons.prems(3)])
  qed
qed

lemma fill_rows_embed:
  assumes "fill_rows cs rows n m = Inr m'" and "n = length cs" and "\<forall>i \<in> set rows. i < n"
    and "length m = n" and "\<forall>k < n. length (m ! k) = n"
    and "\<forall>c \<in> set cs. 0 \<le> fst c \<and> fst c \<le> 100 \<and> 0 \<le> snd c \<and> snd c \<le> 100"
  shows "fill_rows_ieee rounded_square (map embed_city cs) rows n (map (map Finite) m) =
           Inr (map (map Finite) m')"
  using assms(1,3,4,5)
proof (induction rows arbitrary: m)
  case Nil
  then show ?case by simp
next
  case (Cons i rows)
  from Cons.prems(1) obtain m1 where
    row: "fill_row cs i [0..<n] m = Inr m1" and rec: "fill_rows cs rows n m1 = Inr m'"
    by (auto split: sum.splits)
  have i: "i < n" using Cons.prems(2) by simp
  have pre: "i < length m" "\<forall>j \<in> set [0..<n]. j < length (m ! i)"
    using i Cons.prems(3,4) by simp_all
  from fill_row_spec [OF row pre]
  have s1: "length m1 = length m" "\<forall>k < length m. length (m1 ! k) = length (m ! k)" by simp_all
  have l1: "length m1 = n" using s1(1) Cons.prems(3) by simp
  have r1: "\<forall>k < n. length (m1 ! k) = n" using s1(2) Cons.prems(3,4) by simp
  have rest: "\<forall>i \<in> set rows. i < n" using Cons.prems(2) by simp
  have "fill_row_ieee rounded_square (map embed_city cs) i [0..<n] (map (map Finite) m) =
          Inr (map (map Finite) m1)"
    using fill_row_embed [OF row _ _ pre(1) assms(6)] i assms(2) by simp
  then show ?case using Cons.IH [OF rec rest l1 r1] by simp
qed

lemma calculate_distance_matrix_embed:
  assumes "in_square t" and "calculate_distance_matrix t = Inr t'"
  shows "calculate_distance_matrix_ieee rounded_square (map embed_city (cities t)) =
           Inr (map (map Finite) (distance_matrix t'))"
proof -
  let ?n = "length (cities t)"
  let ?m0 = "replicate ?n (replicate ?n (0::real))"
  from assms(2) obtain m where
    fr: "fill_rows (cities t) [0..<?n] ?n ?m0 = Inr m" and t': "t' = t\<lparr>distance_matrix := m\<rparr>"
    by (auto simp: calculate_distance_matrix_def Let_def split: sum.splits)
  have sq: "\<forall>c \<in> set (cities t). 0 \<le> fst c \<and> fst c \<le> 100 \<and> 0 \<le> snd c \<and> snd c \<le> 100"
    using assms(1) by (simp only: in_square_def)
  have "fill_rows_ieee rounded_square (map embed_city (cities t)) [0..<?n] ?n (map (map Finite) ?m0) =
          Inr (map (map Finite) m)"
    by (rule fill_rows_embed [OF fr _ _ _ _ sq]) simp_all
  then show ?thesis by (simp add: calculate_distance_matrix_ieee_def t')
qed

text \<open>When it returns and when it raises. On cities of the square, with a correctly rounded
  \<open>pow\<close>, the function returns; a finite coordinate whose square overflows makes it raise
  \<open>OverflowError\<close>.\<close>

lemma calculate_distance_matrix_ieee_total:
  assumes "in_square t"
  shows "\<exists>m. calculate_distance_matrix_ieee rounded_square (map embed_city (cities t)) = Inr m"
proof -
  obtain t' where "calculate_distance_matrix t = Inr t'"
    using calculate_distance_matrix_total [OF assms] by blast
  from calculate_distance_matrix_embed [OF assms this] show ?thesis by blast
qed

lemma two_cities_raise:
  assumes "distance_ieee p a b = Inl e"
  shows "calculate_distance_matrix_ieee p [a, b] = Inl e"
  using assms by (simp add: calculate_distance_matrix_ieee_def upt_conv_Cons eval_nat_numeral)

lemma distance_ieee_overflow:
  assumes "round_double x = x" and "1 < x" and "x < 2 ^ 1024" and "2 ^ 1024 \<le> round_double (x * x)"
  shows "distance_ieee rounded_square (Finite x, Finite 0) (Finite 0, Finite 0) = Inl OverflowError"
proof -
  have "ieee_sub (Finite x) (Finite 0) = Finite x"
    using assms(1,2,3) by (simp add: ieee_sub_def overflow_def)
  moreover have "py_square rounded_square (Finite x) = Inl OverflowError"
    using assms(2,4) by (simp add: rounded_square_def)
  ultimately show ?thesis by (simp add: distance_ieee_def)
qed

lemma distance_matrix_raises_example:
  "calculate_distance_matrix_ieee rounded_square [(Finite (2 ^ 600), Finite 0), (Finite 0, Finite 0)] =
     Inl OverflowError"
proof (rule two_cities_raise, rule distance_ieee_overflow)
  show "round_double (2 ^ 600) = 2 ^ 600"
    using round_double_fix [of 1 600] by (simp add: powr_realpow)
  show "(1::real) < 2 ^ 600" by simp
  show "(2::real) ^ 600 < 2 ^ 1024" by simp
  have "(2::real) ^ 600 * 2 ^ 600 = 2 ^ 1200" by simp
  moreover have "round_double (2 ^ 1200) = 2 ^ 1200"
    using round_double_fix [of 1 1200] by (simp add: powr_realpow)
  moreover have "(2::real) ^ 1024 \<le> 2 ^ 1200" by simp
  ultimately show "2 ^ 1024 \<le> round_double (2 ^ 600 * 2 ^ 600)" by (simp only:)
qed

end
